(* ===== verification/Prelude.thy ===== *)
theory Prelude
  imports Main "HOL-Library.Word" "HOL-Library.List_Lexorder" "HOL-Library.Char_ord"
    "HOL-Library.AList" "HOL-Library.Product_Lexorder" "HOL-Library.Multiset"
begin

text \<open>
  Shared vocabulary of the development: the JavaScript runtime behaviour that
  \<open>filterManager.js\<close> relies on (string trimming, splitting, case mapping,
  substring search), the exceptions it throws, the values the preference store
  holds, and the generic list lemmas the component theories share.  Strings are
  HOL \<open>string\<close>s whose characters stand for UTF-16 code units in the Latin-1
  range; case mapping is modelled on that range.
\<close>

named_theorems js_simps "evaluation rules of the JavaScript runtime helpers"

section \<open>Exceptions\<close>

text \<open>
  The exceptions the source throws or lets escape: the runtime's \<open>SyntaxError\<close>
  (from \<open>new RegExp\<close>) and \<open>TypeError\<close> (a method called on \<open>undefined\<close>),
  \<open>Components.Exception(msg)\<close> with its message, and the bare XPCOM result
  codes \<open>NS_ERROR_INVALID_ARG\<close> and \<open>NS_ERROR_FAILURE\<close>.
\<close>

datatype js_exn =
    SyntaxError
  | TypeError
  | NsException string
  | NS_ERROR_INVALID_ARG
  | NS_ERROR_FAILURE
  | NS_ERROR_NO_INTERFACE

text \<open>A statement that may throw: the state after it and the exception, if any.\<close>

type_synonym 's js_outcome = "'s \<times> js_exn option"

section \<open>Preference values\<close>

text \<open>Mozilla preferences are typed: boolean, 32-bit integer or string.\<close>

datatype pval = PBool bool | PInt "32 word" | PStr string

section \<open>Characters and strings\<close>

definition js_line_term :: "char \<Rightarrow> bool" where
  "js_line_term c \<longleftrightarrow> c = CHR 0x0A \<or> c = CHR 0x0D"

text \<open>\<open>\s\<close> of ES3 regular expressions: white space and line terminators.\<close>

definition js_space :: "char \<Rightarrow> bool" where
  "js_space c \<longleftrightarrow> c \<in> {CHR 0x09, CHR 0x0B, CHR 0x0C, CHR 0x20, CHR 0xA0} \<or> js_line_term c"

text \<open>\<open>str.replace(/^\s+|\s+$/g, '')\<close>: leading and trailing white space removed.\<close>

definition js_trim :: "string \<Rightarrow> string" where
  "js_trim s = rev (dropWhile js_space (rev (dropWhile js_space s)))"

text \<open>\<open>str.split(d)\<close> for a one-character separator: never empty, one part more than separators.\<close>

fun js_split :: "char \<Rightarrow> string \<Rightarrow> string list" where
  "js_split d [] = [[]]"
| "js_split d (c # cs) =
     (let ps = js_split d cs in if c = d then [] # ps else (c # hd ps) # tl ps)"

text \<open>\<open>parts.join(d)\<close>, the inverse of \<open>js_split\<close>.\<close>

fun js_join :: "char \<Rightarrow> string list \<Rightarrow> string" where
  "js_join d [] = []"
| "js_join d [p] = p"
| "js_join d (p # q # ps) = p @ d # js_join d (q # ps)"

text \<open>\<open>String.prototype.toLowerCase\<close> on Latin-1 code units.\<close>

definition js_lower_char :: "char \<Rightarrow> char" where
  "js_lower_char c =
     (let n = of_char c :: nat in
      if (65 \<le> n \<and> n \<le> 90) \<or> (192 \<le> n \<and> n \<le> 222 \<and> n \<noteq> 215) then char_of (n + 32) else c)"

definition js_lower :: "string \<Rightarrow> string" where
  "js_lower s = map js_lower_char s"

text \<open>
  \<open>Canonicalize\<close> of ES3 15.10.2.8, used by case-insensitive regular expressions:
  the upper-case mapping, kept only where it is one code unit.  The two Latin-1
  letters whose upper case lies outside Latin-1 (U+00B5, U+00FF) map to code
  units no other Latin-1 letter maps to, so keeping them fixed preserves which
  characters are identified.
\<close>

definition js_canon :: "char \<Rightarrow> char" where
  "js_canon c =
     (let n = of_char c :: nat in
      if (97 \<le> n \<and> n \<le> 122) \<or> (224 \<le> n \<and> n \<le> 254 \<and> n \<noteq> 247) then char_of (n - 32) else c)"

text \<open>\<open>s.search(/lit/) != -1\<close> for a literal pattern: is \<open>p\<close> a substring of \<open>s\<close>?\<close>

fun js_contains :: "string \<Rightarrow> string \<Rightarrow> bool" where
  "js_contains [] p = (p = [])"
| "js_contains (c # cs) p = (take (length p) (c # cs) = p \<or> js_contains cs p)"

definition js_starts_with :: "string \<Rightarrow> string \<Rightarrow> bool" where
  "js_starts_with s p \<longleftrightarrow> take (length p) s = p"

definition js_ends_with :: "string \<Rightarrow> string \<Rightarrow> bool" where
  "js_ends_with s p \<longleftrightarrow> length p \<le> length s \<and> drop (length s - length p) s = p"

text \<open>\<open>ToBoolean\<close> of a value read from the store (\<open>undefined\<close> when absent).\<close>

fun js_truthy :: "pval option \<Rightarrow> bool" where
  "js_truthy None = False"
| "js_truthy (Some (PBool b)) = b"
| "js_truthy (Some (PInt n)) = (n \<noteq> 0)"
| "js_truthy (Some (PStr s)) = (s \<noteq> [])"

text \<open>
  \<open>Array.prototype.sort(cmp)\<close>: SpiderMonkey sorts by a stable merge sort, so
  the model is the stable insertion sort that places each element after every
  element it does not precede.
\<close>

fun insert_by :: "('a \<Rightarrow> 'a \<Rightarrow> int) \<Rightarrow> 'a \<Rightarrow> 'a list \<Rightarrow> 'a list" where
  "insert_by c x [] = [x]"
| "insert_by c x (y # ys) = (if c x y < 0 then x # y # ys else y # insert_by c x ys)"

definition js_sort :: "('a \<Rightarrow> 'a \<Rightarrow> int) \<Rightarrow> 'a list \<Rightarrow> 'a list" where
  "js_sort c xs = foldl (\<lambda>acc x. insert_by c x acc) [] xs"

section \<open>Lemmas on the string helpers\<close>

lemma js_split_not_Nil [simp]: "js_split d s \<noteq> []"
  by (induction s) (auto simp: Let_def)

lemma length_js_split: "length (js_split d s) = Suc (count_list s d)"
  by (induction s) (auto simp: Let_def)

lemma js_split_part_free: "p \<in> set (js_split d s) \<Longrightarrow> d \<notin> set p"
proof (induction s arbitrary: p)
  case Nil
  then show ?case by simp
next
  case (Cons c cs)
  obtain q qs where split: "js_split d cs = q # qs"
    by (cases "js_split d cs") auto
  from Cons.prems split Cons.IH show ?case
    by (auto simp: Let_def split: if_splits)
qed

text \<open>Splitting and joining again is the identity.\<close>

lemma js_split_join: "js_join d (js_split d s) = s"
proof (induction s)
  case Nil
  then show ?case by simp
next
  case (Cons c cs)
  obtain q qs where split: "js_split d cs = q # qs"
    by (cases "js_split d cs") auto
  with Cons.IH show ?case
    by (cases qs) (auto simp: Let_def)
qed

lemma js_split_free [simp]: "d \<notin> set s \<Longrightarrow> js_split d s = [s]"
  by (induction s) (auto simp: Let_def)

lemma js_trim_infix: "\<exists>u v. s = u @ js_trim s @ v"
proof -
  let ?t = "dropWhile js_space s"
  have s: "s = takeWhile js_space s @ ?t" by simp
  have "rev ?t = takeWhile js_space (rev ?t) @ dropWhile js_space (rev ?t)" by simp
  then have "?t = js_trim s @ rev (takeWhile js_space (rev ?t))"
    by (metis js_trim_def rev_append rev_rev_ident)
  with s have "s = takeWhile js_space s @ js_trim s @ rev (takeWhile js_space (rev ?t))"
    by simp
  then show ?thesis by blast
qed

lemma count_js_trim_le: "count_list (js_trim s) d \<le> count_list s d"
proof -
  obtain u v where "s = u @ js_trim s @ v" using js_trim_infix by blast
  then have "count_list s d = count_list u d + count_list (js_trim s) d + count_list v d"
    by (metis add.assoc count_list_append)
  then show ?thesis by simp
qed

lemma set_js_trim: "set (js_trim s) \<subseteq> set s"
  using js_trim_infix [of s] by (metis Un_iff set_append subsetI)

text \<open>
  \<open>js_trim\<close> is characterised by a decomposition: white space, the trimmed
  text, white space, where the trimmed text is empty or starts and ends with a
  character that is not white space.
\<close>

lemma js_trim_ends:
  "js_trim s = [] \<or> \<not> js_space (hd (js_trim s)) \<and> \<not> js_space (last (js_trim s))"
proof -
  let ?t = "dropWhile js_space s"
  have "rev ?t = takeWhile js_space (rev ?t) @ dropWhile js_space (rev ?t)" by simp
  then have t: "?t = js_trim s @ rev (takeWhile js_space (rev ?t))"
    by (metis js_trim_def rev_append rev_rev_ident)
  show ?thesis
  proof (cases "js_trim s = []")
    case False
    then have "dropWhile js_space (rev ?t) \<noteq> []" by (simp add: js_trim_def)
    then have l: "\<not> js_space (last (js_trim s))"
      by (simp add: js_trim_def hd_dropWhile last_rev)
    from False t have "hd ?t = hd (js_trim s)" by (metis hd_append2)
    moreover from False t have "?t \<noteq> []" by (metis append_is_Nil_conv)
    ultimately have "\<not> js_space (hd (js_trim s))" by (metis hd_dropWhile)
    with l show ?thesis by simp
  qed simp
qed

lemma js_trim_decomp:
  "\<exists>u v. s = u @ js_trim s @ v \<and> (\<forall>c\<in>set u. js_space c) \<and> (\<forall>c\<in>set v. js_space c)"
proof -
  let ?t = "dropWhile js_space s"
  have s: "s = takeWhile js_space s @ ?t" by simp
  have "rev ?t = takeWhile js_space (rev ?t) @ dropWhile js_space (rev ?t)" by simp
  then have "?t = js_trim s @ rev (takeWhile js_space (rev ?t))"
    by (metis js_trim_def rev_append rev_rev_ident)
  with s have "s = takeWhile js_space s @ js_trim s @ rev (takeWhile js_space (rev ?t))"
    by simp
  moreover have "\<forall>c\<in>set (takeWhile js_space s). js_space c"
    by (meson set_takeWhileD)
  moreover have "\<forall>c\<in>set (rev (takeWhile js_space (rev ?t))). js_space c"
    by (metis set_rev set_takeWhileD)
  ultimately show ?thesis by blast
qed

lemma js_trim_unique:
  assumes s: "s = u @ m @ v" and u: "\<forall>c\<in>set u. js_space c" and v: "\<forall>c\<in>set v. js_space c"
    and m: "m = [] \<or> \<not> js_space (hd m) \<and> \<not> js_space (last m)"
  shows "js_trim s = m"
proof (cases "m = []")
  case True
  with s u v show ?thesis by (auto simp: js_trim_def dropWhile_append2 dest: set_dropWhileD)
next
  case False
  with m have h: "\<not> js_space (hd m)" and l: "\<not> js_space (last m)" by auto
  have "dropWhile js_space s = m @ v"
    using s u False h by (simp add: dropWhile_append2 dropWhile_append1 [where x = "hd m"]
        dropWhile_eq_self_iff)
  moreover have "dropWhile js_space (rev v @ rev m) = dropWhile js_space (rev m)"
    by (rule dropWhile_append2) (use v in auto)
  moreover have "dropWhile js_space (rev m) = rev m"
    using False l by (simp add: dropWhile_eq_self_iff hd_rev)
  ultimately show ?thesis by (simp add: js_trim_def)
qed

lemma js_trim_infix_spaces:
  "s = u @ t @ v \<Longrightarrow> \<forall>c\<in>set u. js_space c \<Longrightarrow> \<forall>c\<in>set v. js_space c \<Longrightarrow> js_trim s = js_trim t"
proof -
  assume s: "s = u @ t @ v" and u: "\<forall>c\<in>set u. js_space c" and v: "\<forall>c\<in>set v. js_space c"
  obtain u2 v2 where t: "t = u2 @ js_trim t @ v2" and u2: "\<forall>c\<in>set u2. js_space c"
    and v2: "\<forall>c\<in>set v2. js_space c"
    using js_trim_decomp by blast
  have "s = (u @ u2) @ js_trim t @ (v2 @ v)" using s t by simp
  then show ?thesis
    by (rule js_trim_unique) (use u v u2 v2 js_trim_ends in auto)
qed

lemma js_trim_idem [simp]: "js_trim (js_trim s) = js_trim s"
  using js_trim_decomp [of s] js_trim_infix_spaces by metis

lemma js_trim_id: "s \<noteq> [] \<Longrightarrow> \<not> js_space (hd s) \<Longrightarrow> \<not> js_space (last s) \<Longrightarrow> js_trim s = s"
  using js_trim_unique [of s "[]" s "[]"] by simp

lemma js_split_append: "d \<notin> set a \<Longrightarrow> js_split d (a @ d # b) = a # js_split d b"
  by (induction a) (auto simp: Let_def)

lemma not_space_slash [simp]: "\<not> js_space CHR ''/''" and not_space_i [simp]: "\<not> js_space CHR ''i''"
  and not_space_comma [simp]: "\<not> js_space CHR '',''"
  by (simp_all add: js_space_def js_line_term_def)

lemma rtrim_decomp: "rev (dropWhile P (rev b)) @ rev (takeWhile P (rev b)) = b"
  by (metis rev_append rev_rev_ident takeWhile_dropWhile_id)

lemma js_trim_around_comma:
  assumes d: "\<not> js_space d"
  shows "js_trim (a @ d # b) = dropWhile js_space a @ d # rev (dropWhile js_space (rev b))"
proof (rule js_trim_unique)
  let ?A = "dropWhile js_space a" and ?X = "dropWhile js_space (rev b)"
  have "takeWhile js_space a @ (?A @ d # rev ?X) @ rev (takeWhile js_space (rev b))
        = (takeWhile js_space a @ ?A) @ d # (rev ?X @ rev (takeWhile js_space (rev b)))"
    by simp
  also have "\<dots> = a @ d # b" by (simp only: takeWhile_dropWhile_id rtrim_decomp)
  finally show "a @ d # b = takeWhile js_space a @ (?A @ d # rev ?X) @ rev (takeWhile js_space (rev b))"
    by simp
  show "\<forall>c\<in>set (takeWhile js_space a). js_space c" by (meson set_takeWhileD)
  show "\<forall>c\<in>set (rev (takeWhile js_space (rev b))). js_space c" by (metis set_rev set_takeWhileD)
  have h: "\<not> js_space (hd (?A @ d # rev ?X))"
  proof (cases "?A = []")
    case True
    with d show ?thesis by (metis append_Nil list.sel(1))
  next
    case False
    then show ?thesis using hd_dropWhile [OF False] by simp
  qed
  have l: "\<not> js_space (last (?A @ d # rev ?X))"
  proof (cases "?X = []")
    case True
    with d show ?thesis by (metis append_Nil last_ConsL last_appendR not_Cons_self2 rev.simps(1))
  next
    case False
    have "last (?A @ d # rev ?X) = hd ?X"
      using False by (metis last_ConsR last_appendR last_rev list.distinct(1) rev_is_Nil_conv)
    then show ?thesis using hd_dropWhile [OF False] by simp
  qed
  from h l show "?A @ d # rev ?X = [] \<or> \<not> js_space (hd (?A @ d # rev ?X)) \<and> \<not> js_space (last (?A @ d # rev ?X))"
    by simp
qed

lemma js_trim_ltrim: "js_trim (dropWhile js_space a) = js_trim a"
proof -
  have "a = takeWhile js_space a @ dropWhile js_space a @ []" by simp
  moreover have "\<forall>c\<in>set (takeWhile js_space a). js_space c" by (meson set_takeWhileD)
  ultimately show ?thesis using js_trim_infix_spaces by (metis empty_iff empty_set)
qed

lemma js_trim_rtrim: "js_trim (rev (dropWhile js_space (rev b))) = js_trim b"
proof -
  have "b = [] @ rev (dropWhile js_space (rev b)) @ rev (takeWhile js_space (rev b))"
    by (simp add: rtrim_decomp)
  moreover have "\<forall>c\<in>set (rev (takeWhile js_space (rev b))). js_space c"
    by (metis set_rev set_takeWhileD)
  ultimately show ?thesis using js_trim_infix_spaces by (metis empty_iff empty_set)
qed

section \<open>The stable sort\<close>

text \<open>
  \<open>js_sort\<close> with a comparator that is negative exactly when one key is below
  another is the library's stable \<open>sort_key\<close>.
\<close>

lemma mset_insert_by: "mset (insert_by c x ys) = add_mset x (mset ys)"
  by (induction ys) auto

lemma insert_by_sorted:
  assumes key: "\<And>a b. c a b < 0 \<longleftrightarrow> f a < f b" and "sorted (map f ys)"
  shows "sorted (map f (insert_by c x ys))"
  using assms(2)
proof (induction ys)
  case (Cons y ys)
  then show ?case
  proof -
    have "set (insert_by c x ys) = insert x (set ys)"
      using mset_insert_by [of c x ys] by (metis set_mset_add_mset_insert set_mset_mset)
    with Cons show ?thesis by (cases "f x < f y") (auto simp: key)
  qed
qed simp

lemma filter_insert_by:
  assumes key: "\<And>a b. c a b < 0 \<longleftrightarrow> f a < f b" and "sorted (map f ys)"
  shows "filter (\<lambda>y. v = f y) (insert_by c x ys) =
           filter (\<lambda>y. v = f y) ys @ (if v = f x then [x] else [])"
  using assms(2)
proof (induction ys)
  case (Cons y ys)
  show ?case
  proof (cases "f x < f y")
    case True
    with Cons.prems have "\<forall>z\<in>set (y # ys). f x < f z" by (auto simp: key)
    then have "v = f x \<Longrightarrow> filter (\<lambda>z. v = f z) (y # ys) = []" by (auto simp: filter_empty_conv)
    with True show ?thesis by (auto simp: key)
  next
    case False
    then have "insert_by c x (y # ys) = y # insert_by c x ys" by (simp add: key)
    then have "filter (\<lambda>z. v = f z) (insert_by c x (y # ys)) =
                 filter (\<lambda>z. v = f z) [y] @ filter (\<lambda>z. v = f z) (insert_by c x ys)" by simp
    also have "\<dots> = filter (\<lambda>z. v = f z) [y] @ filter (\<lambda>z. v = f z) ys @ (if v = f x then [x] else [])"
      using Cons by simp
    finally show ?thesis by simp
  qed
qed simp

lemma js_sort_snoc: "js_sort c (xs @ [x]) = insert_by c x (js_sort c xs)"
  by (simp add: js_sort_def)

lemma js_sort_sort_key:
  fixes f :: "'a \<Rightarrow> 'k::linorder"
  assumes key: "\<And>a b. c a b < 0 \<longleftrightarrow> f a < f b"
  shows "js_sort c xs = sort_key f xs"
proof -
  have inv: "mset (js_sort c xs) = mset xs \<and> sorted (map f (js_sort c xs)) \<and>
             (\<forall>v. filter (\<lambda>y. v = f y) (js_sort c xs) = filter (\<lambda>y. v = f y) xs)"
  proof (induction xs rule: rev_induct)
    case Nil
    then show ?case by (simp add: js_sort_def)
  next
    case (snoc x xs)
    then show ?case
      by (simp add: js_sort_snoc mset_insert_by insert_by_sorted [OF key] filter_insert_by [OF key]
          del: filter.simps)
  qed
  show ?thesis
    by (rule properties_for_sort_key [symmetric]) (use inv in auto)
qed

section \<open>Lists of addressed values\<close>

lemma zip_upt_Cons:
  "zip [n..<Suc (n + length xs)] (x # xs) = (n, x) # zip [Suc n..<Suc (n + length xs)] xs"
  by (simp add: upt_conv_Cons del: upt_Suc)

lemma map_snd_insort_key:
  "map snd (insort_key (\<lambda>x. f (snd x)) x ys) = insort_key f (snd x) (map snd ys)"
  by (induction ys) auto

lemma map_snd_sort_key: "map snd (sort_key (\<lambda>x. f (snd x)) xs) = sort_key f (map snd xs)"
  by (induction xs) (simp_all add: map_snd_insort_key)

lemma map_of_zip_upt:
  "(a, f) \<in> set (zip [n..<n + length L] L) \<Longrightarrow> map_of (zip [n..<n + length L] L) a = Some f"
  by (rule map_of_is_SomeI) (simp_all add: map_fst_zip_take)

lemma map_the_lookup:
  assumes "\<forall>x\<in>set xs. h (fst x) = Some (snd x)"
  shows "map (\<lambda>a. the (h a)) (map fst xs) = map snd xs"
  using assms by (induction xs) auto

lemma in_set_map_filter: "y \<in> set (List.map_filter g xs) \<longleftrightarrow> (\<exists>x\<in>set xs. g x = Some y)"
  by (induction xs) (auto split: option.split)

lemma fst_outcome_case [simp]:
  "fst (case r of (s', None) \<Rightarrow> (s', a) | (s', Some x) \<Rightarrow> (s', b x)) = fst r"
  by (cases r; cases "snd r") auto

end
