(* ===== verification/PatternCompiler.thy ===== *)
theory PatternCompiler
  imports Prelude
begin

text \<open>
  The pattern compiler \<open>Filter.prototype._makeRegs\<close> (filterManager.js lines
  68--107): user text to the list of regular expressions a filter matches with.
  The JavaScript \<open>RegExp\<close> engine is an interface: \<open>rt_compiles rt src ci\<close> says
  whether \<open>new RegExp(src, ci ? "i" : "")\<close> succeeds, \<open>rt_search rt src ci s\<close>
  whether \<open>s.search(re) != -1\<close>.  Every lemma here holds for any engine; the
  theory \<open>ES3RegExp\<close> gives one.
\<close>

section \<open>Matchers and the regular expression engine\<close>

datatype matcher = RegExp (re_source: string) (re_ignore_case: bool)

record regexp_rt =
  rt_compiles :: "string \<Rightarrow> bool \<Rightarrow> bool"
  rt_search :: "string \<Rightarrow> bool \<Rightarrow> string \<Rightarrow> bool"

section \<open>Explicit regular expressions: \<open>/^\/(.+?)(?:\/(i?))?$/\<close>\<close>

text \<open>
  \<open>str.match(/^\/(.+?)(?:\/(i?))?$/)\<close> after the leading slash: the lazy
  \<open>.+?\<close> takes one more character (never a line terminator) at a time, and
  the first length whose remainder is \<open>/i\<close>, \<open>/\<close> or empty wins; the flag is
  \<open>i\<close> only for the remainder \<open>/i\<close>.  \<open>body\<close> holds what \<open>.+?\<close> has taken.
\<close>

fun explicit_scan :: "string \<Rightarrow> string \<Rightarrow> (string \<times> bool) option" where
  "explicit_scan body [] = None"
| "explicit_scan body (c # rest) =
     (if js_line_term c then None
      else if rest = ''/i'' then Some (body @ [c], True)
      else if rest = ''/'' \<or> rest = [] then Some (body @ [c], False)
      else explicit_scan (body @ [c]) rest)"

definition explicit_regexp :: "string \<Rightarrow> (string \<times> bool) option" where
  "explicit_regexp s = (if s \<noteq> [] \<and> hd s = CHR ''/'' then explicit_scan [] (tl s) else None)"

text \<open>
  Lines 73--88: \<open>None\<close> falls through to the glob reading (no match, or
  \<open>new RegExp\<close> threw and the \<open>catch\<close> swallowed it); \<open>Some None\<close> is the
  \<open>return\<close> on an empty body; \<open>Some (Some m)\<close> pushes \<open>m\<close> and returns.
\<close>

definition explicit_attempt :: "regexp_rt \<Rightarrow> string \<Rightarrow> matcher option option" where
  "explicit_attempt rt s =
     (if 2 < length s \<and> s ! 0 = CHR ''/'' then
        (case explicit_regexp s of
           None \<Rightarrow> None
         | Some (body, ci) \<Rightarrow>
             if body = [] then Some None
             else if rt_compiles rt body ci then Some (Some (RegExp body ci))
             else None)
      else None)"

section \<open>Glob text\<close>

text \<open>\<open>str.replace(re, f)\<close> for a one-character pattern: every occurrence replaced.\<close>

definition replace_each :: "(char \<Rightarrow> string) \<Rightarrow> string \<Rightarrow> string" where
  "replace_each f s = concat (map f s)"

definition glob_meta :: "char \<Rightarrow> bool" where
  "glob_meta c \<longleftrightarrow> c \<in> set ''/{}()[]^$.'' \<or> c = CHR 0x5C"

text \<open>Lines 100--103, one \<open>replace\<close> after the other.\<close>

definition glob_regexp :: "string \<Rightarrow> string" where
  "glob_regexp s =
     replace_each (\<lambda>c. if c = CHR ''?'' then ''.'' else [c])
       (replace_each (\<lambda>c. if c = CHR ''*'' then ''.*'' else [c])
         (replace_each (\<lambda>c. if glob_meta c then [CHR 0x5C, c] else [c]) s))"

text \<open>The three passes as one: what each character of the glob becomes.\<close>

definition glob_char :: "char \<Rightarrow> string" where
  "glob_char c =
     (if c = CHR ''*'' then ''.*'' else if c = CHR ''?'' then ''.''
      else if glob_meta c then [CHR 0x5C, c] else [c])"

section \<open>The compiler\<close>

text \<open>
  \<open>make_regs rt str rs\<close> runs \<open>this._makeRegs(str)\<close> with \<open>this._regs = rs\<close>:
  the regs after it and the exception that escaped, if any.  Pushes made before
  a throw stay, as in the source.  \<open>make_regs_parts\<close> is the \<open>for each\<close> loop
  over the comma-separated parts.
\<close>

text \<open>
  The loop terminates because the parts of a split have no comma: a part is
  compiled without splitting again.  The measure is the number of commas, then
  the number of parts left.
\<close>

definition commas_left ::
    "(regexp_rt \<times> string \<times> matcher list) + (regexp_rt \<times> string list \<times> matcher list) \<Rightarrow> nat" where
  "commas_left x = (case x of Inl (_, s, _) \<Rightarrow> count_list s CHR '',''
                   | Inr (_, ps, _) \<Rightarrow> sum_list (map (\<lambda>p. count_list p CHR '','') ps))"

definition parts_left ::
    "(regexp_rt \<times> string \<times> matcher list) + (regexp_rt \<times> string list \<times> matcher list) \<Rightarrow> nat" where
  "parts_left x = (case x of Inl _ \<Rightarrow> 0 | Inr (_, ps, _) \<Rightarrow> Suc (length ps))"

function make_regs :: "regexp_rt \<Rightarrow> string \<Rightarrow> matcher list \<Rightarrow> matcher list js_outcome"
  and make_regs_parts :: "regexp_rt \<Rightarrow> string list \<Rightarrow> matcher list \<Rightarrow> matcher list js_outcome"
where
  "make_regs rt str rs =
     (let s = js_trim str in
      case explicit_attempt rt s of
        Some None \<Rightarrow> (rs, None)
      | Some (Some m) \<Rightarrow> (rs @ [m], None)
      | None \<Rightarrow>
          (let parts = js_split CHR '','' s in
           if 1 < length parts then make_regs_parts rt parts rs
           else
             (let g = glob_regexp s in
              if g = [] then (rs, None)
              else if rt_compiles rt g True then (rs @ [RegExp g True], None)
              else (rs, Some SyntaxError))))"
| "make_regs_parts rt [] rs = (rs, None)"
| "make_regs_parts rt (p # ps) rs =
     (case make_regs rt p rs of
        (rs', Some e) \<Rightarrow> (rs', Some e)
      | (rs', None) \<Rightarrow> make_regs_parts rt ps rs')"
  by pat_completeness auto

termination
proof (relation "measures [commas_left, parts_left]")
  fix rt str rs s parts
  assume s: "s = js_trim str" and parts: "parts = js_split CHR '','' s"
    and more: "1 < length parts"
  have free: "sum_list (map (\<lambda>p. count_list p CHR '','') parts) = 0"
    using js_split_part_free parts by (simp add: sum_list_eq_0_iff)
  have "0 < count_list s CHR '',''" using more parts by (simp add: length_js_split)
  moreover have "count_list s CHR '','' \<le> count_list str CHR '',''"
    using count_js_trim_le s by simp
  ultimately have "0 < count_list str CHR '',''" by linarith
  then show "(Inr (rt, parts, rs), Inl (rt, str, rs)) \<in> measures [commas_left, parts_left]"
    by (simp add: commas_left_def free)
qed (auto simp: commas_left_def parts_left_def)

text \<open>
  A matcher the compiler may hold: \<open>new RegExp(source, flags)\<close> returned it,
  so the engine accepts its source under its flag.
\<close>

definition re_valid :: "regexp_rt \<Rightarrow> matcher \<Rightarrow> bool" where
  "re_valid rt m \<longleftrightarrow> rt_compiles rt (re_source m) (re_ignore_case m)"

section \<open>The lazy scan\<close>

text \<open>
  The three shapes the explicit form can take, and the one way it fails: a line
  terminator anywhere after the slash.
\<close>

lemma explicit_scan_ci:
  "b \<noteq> [] \<Longrightarrow> \<forall>c\<in>set b. \<not> js_line_term c \<Longrightarrow>
   explicit_scan acc (b @ ''/i'') = Some (acc @ b, True)"
proof (induction b arbitrary: acc)
  case Nil
  then show ?case by simp
next
  case (Cons c b)
  then show ?case by (cases b) auto
qed

lemma explicit_scan_slash:
  "b \<noteq> [] \<Longrightarrow> \<forall>c\<in>set b. \<not> js_line_term c \<Longrightarrow>
   explicit_scan acc (b @ ''/'') = Some (acc @ b, False)"
proof (induction b arbitrary: acc)
  case Nil
  then show ?case by simp
next
  case (Cons c b)
  have "b @ ''/'' \<noteq> ''/i''" by (cases b rule: rev_cases) auto
  with Cons show ?case by (cases b) auto
qed

lemma explicit_scan_plain:
  "b \<noteq> [] \<Longrightarrow> \<forall>c\<in>set b. \<not> js_line_term c \<Longrightarrow>
   \<not> (\<exists>u. u \<noteq> [] \<and> b = u @ ''/i'') \<Longrightarrow> \<not> (\<exists>u. u \<noteq> [] \<and> b = u @ ''/'') \<Longrightarrow>
   explicit_scan acc b = Some (acc @ b, False)"
proof (induction b arbitrary: acc)
  case Nil
  then show ?case by simp
next
  case (Cons c b)
  have "b \<noteq> ''/i''" and "b \<noteq> ''/''" using Cons.prems(3,4) by force+
  moreover have "\<not> (\<exists>u. u \<noteq> [] \<and> b = u @ ''/i'')" and "\<not> (\<exists>u. u \<noteq> [] \<and> b = u @ ''/'')"
    using Cons.prems(3,4) by (metis Cons_eq_appendI list.distinct(1))+
  ultimately show ?case using Cons by (cases b) auto
qed

lemma explicit_scan_line_term:
  "js_line_term c \<Longrightarrow> explicit_scan acc (u @ c # v) = None"
proof (induction u arbitrary: acc)
  case Nil
  then show ?case by simp
next
  case (Cons x u)
  have "u @ c # v \<noteq> ''/i''" and "u @ c # v \<noteq> ''/''"
    using Cons.prems by (cases u; auto simp: js_line_term_def; cases "tl u"; auto)+
  with Cons show ?case by auto
qed

lemma explicit_scan_grows: "explicit_scan acc r = Some (b, ci) \<Longrightarrow> length acc < length b"
  by (induction acc r rule: explicit_scan.induct) (auto split: if_splits)

section \<open>Properties of the compiler\<close>

lemma make_regs_prefix:
  "make_regs rt s (rs0 @ rs) = (rs0 @ fst (make_regs rt s rs), snd (make_regs rt s rs))"
  "make_regs_parts rt ps (rs0 @ rs) = (rs0 @ fst (make_regs_parts rt ps rs), snd (make_regs_parts rt ps rs))"
proof (induction rt s rs and rt ps rs arbitrary: rs0 and rs0 rule: make_regs_make_regs_parts.induct)
  case (1 rt str rs)
  then show ?case by (auto simp: Let_def split: option.splits)
next
  case (2 rt rs)
  then show ?case by simp
next
  case (3 rt p ps rs)
  then show ?case by (auto split: prod.splits option.splits)
qed

lemma make_regs_raises: "snd (make_regs rt s rs) \<in> {None, Some SyntaxError}"
  "snd (make_regs_parts rt ps rs) \<in> {None, Some SyntaxError}"
  by (induction rt s rs and rt ps rs rule: make_regs_make_regs_parts.induct)
     (auto simp: Let_def split: option.splits prod.splits)

lemma make_regs_raises_SyntaxError: "snd (make_regs rt s rs) = Some e \<Longrightarrow> e = SyntaxError"
  using make_regs_raises(1) [of rt s rs] by auto

lemma make_regs_valid:
  "list_all (re_valid rt) rs \<Longrightarrow> list_all (re_valid rt) (fst (make_regs rt s rs))"
  "list_all (re_valid rt) rs \<Longrightarrow> list_all (re_valid rt) (fst (make_regs_parts rt ps rs))"
proof (induction rt s rs and rt ps rs rule: make_regs_make_regs_parts.induct)
  case (1 rt str rs)
  then show ?case
    by (auto simp: Let_def explicit_attempt_def re_valid_def split: option.splits if_splits prod.splits)
next
  case (2 rt rs)
  then show ?case by simp
next
  case (3 rt p ps rs)
  then show ?case by (auto split: prod.splits option.splits)
qed

declare make_regs.simps [simp del]

lemma make_regs_acc:
  "make_regs rt s rs = (rs @ fst (make_regs rt s []), snd (make_regs rt s []))"
  using make_regs_prefix(1) [of rt s rs "[]"] by simp

lemma make_regs_trim: "make_regs rt (js_trim s) rs = make_regs rt s rs"
  by (simp add: make_regs.simps [of rt "js_trim s"] make_regs.simps [of rt s] Let_def)

text \<open>C16: the only exception that escapes the compiler is the \<open>SyntaxError\<close> of a
  rejected glob; text read in the explicit form never raises, its own
  \<open>SyntaxError\<close> being swallowed by the \<open>catch\<close>.\<close>

lemma make_regs_exn:
  "snd (make_regs rt s rs) \<in> {None, Some SyntaxError} \<and>
   (explicit_attempt rt (js_trim s) \<noteq> None \<longrightarrow> snd (make_regs rt s rs) = None)"
proof
  show "snd (make_regs rt s rs) \<in> {None, Some SyntaxError}" by (rule make_regs_raises(1))
  show "explicit_attempt rt (js_trim s) \<noteq> None \<longrightarrow> snd (make_regs rt s rs) = None"
    by (auto simp: make_regs.simps [of rt s] Let_def split: option.splits)
qed

text \<open>C15: the empty-body \<open>return\<close> of the explicit branch (line 79) is dead code: the lazy \<open>.+?\<close> never yields an empty body.\<close>

lemma explicit_attempt_never_empty: "explicit_attempt rt s \<noteq> Some None"
proof
  assume a: "explicit_attempt rt s = Some None"
  then obtain b ci where e: "explicit_scan [] (tl s) = Some (b, ci)" and "b = []"
    by (auto simp: explicit_attempt_def explicit_regexp_def split: if_splits option.splits)
  then show False using explicit_scan_grows [OF e] by simp
qed

lemma explicit_attempt_slash:
  assumes "explicit_regexp s = Some (b, ci)" and "2 < length s"
  shows "explicit_attempt rt s = (if rt_compiles rt b ci then Some (Some (RegExp b ci)) else None)"
proof -
  from assms(1) have s: "s \<noteq> [] \<and> hd s = CHR ''/''" and e: "explicit_scan [] (tl s) = Some (b, ci)"
    by (auto simp: explicit_regexp_def split: if_splits)
  have "b \<noteq> []" using explicit_scan_grows [OF e] by simp
  moreover have "s ! 0 = CHR ''/''" using s by (metis hd_conv_nth)
  ultimately show ?thesis using assms by (simp add: explicit_attempt_def)
qed

text \<open>\<open>/body/i\<close> compiles to the single case-insensitive matcher with source \<open>body\<close>, verbatim.\<close>

theorem make_regs_explicit_ci:
  assumes "b \<noteq> []" and "\<forall>c\<in>set b. \<not> js_line_term c" and "rt_compiles rt b True"
  shows "make_regs rt (CHR ''/'' # b @ ''/i'') rs = (rs @ [RegExp b True], None)"
proof -
  let ?s = "CHR ''/'' # b @ ''/i''"
  have t: "js_trim ?s = ?s" by (rule js_trim_id) auto
  have "explicit_regexp ?s = Some (b, True)"
    using explicit_scan_ci [OF assms(1,2), of "[]"] by (simp add: explicit_regexp_def)
  then have "explicit_attempt rt ?s = Some (Some (RegExp b True))"
    using assms(1,3) by (simp add: explicit_attempt_slash)
  with t show ?thesis by (simp add: make_regs.simps [of rt ?s] Let_def)
qed

text \<open>\<open>/body/\<close> compiles to the single case-sensitive matcher with source \<open>body\<close>.\<close>

theorem make_regs_explicit_cs:
  assumes "b \<noteq> []" and "\<forall>c\<in>set b. \<not> js_line_term c" and "rt_compiles rt b False"
  shows "make_regs rt (CHR ''/'' # b @ ''/'') rs = (rs @ [RegExp b False], None)"
proof -
  let ?s = "CHR ''/'' # b @ ''/''"
  have t: "js_trim ?s = ?s" by (rule js_trim_id) auto
  have "explicit_regexp ?s = Some (b, False)"
    using explicit_scan_slash [OF assms(1,2), of "[]"] by (simp add: explicit_regexp_def)
  moreover have "2 < length ?s" using assms(1) by (cases b) auto
  ultimately have "explicit_attempt rt ?s = Some (Some (RegExp b False))"
    using assms(3) by (simp add: explicit_attempt_slash)
  with t show ?thesis by (simp add: make_regs.simps [of rt ?s] Let_def)
qed

lemma replace_each_Cons [simp]: "replace_each f (c # s) = f c @ replace_each f s"
  and replace_each_Nil [simp]: "replace_each f [] = []"
  and replace_each_append [simp]: "replace_each f (a @ b) = replace_each f a @ replace_each f b"
  by (simp_all add: replace_each_def)

theorem glob_regexp_one_pass: "glob_regexp s = concat (map glob_char s)"
proof (induction s)
  case Nil
  then show ?case by (simp add: glob_regexp_def)
next
  case (Cons c s)
  have "glob_regexp (c # s) = glob_regexp [c] @ glob_regexp s"
    by (simp add: glob_regexp_def)
  moreover have "glob_regexp [c] = glob_char c"
    by (auto simp: glob_regexp_def glob_char_def glob_meta_def)
  ultimately show ?case using Cons.IH by simp
qed

theorem make_regs_comma:
  assumes "explicit_attempt rt (js_trim (a @ CHR '','' # b)) = None"
    and "CHR '','' \<notin> set a" and "CHR '','' \<notin> set b"
  shows "make_regs rt (a @ CHR '','' # b) rs =
    (let (rs', e) = make_regs rt a rs in if e = None then make_regs rt b rs' else (rs', e))"
proof -
  let ?a = "dropWhile js_space a" and ?b = "rev (dropWhile js_space (rev b))"
  have t: "js_trim (a @ CHR '','' # b) = ?a @ CHR '','' # ?b"
    by (rule js_trim_around_comma) simp
  have "CHR '','' \<notin> set ?a" using assms(2) by (meson set_dropWhileD)
  moreover have "CHR '','' \<notin> set ?b" using assms(3) by (metis set_dropWhileD set_rev)
  ultimately have parts: "js_split CHR '','' (js_trim (a @ CHR '','' # b)) = [?a, ?b]"
    by (simp add: t js_split_append)
  have ma: "\<And>rs. make_regs rt ?a rs = make_regs rt a rs"
    using make_regs_trim js_trim_ltrim by metis
  have mb: "\<And>rs. make_regs rt ?b rs = make_regs rt b rs"
    using make_regs_trim js_trim_rtrim by metis
  have "make_regs rt (a @ CHR '','' # b) rs = make_regs_parts rt [?a, ?b] rs"
    using assms(1) parts by (subst make_regs.simps) (simp add: Let_def del: make_regs_parts.simps)
  also have "\<dots> = (let (rs', e) = make_regs rt ?a rs in if e = None then make_regs rt ?b rs' else (rs', e))"
    by (auto split: prod.splits option.splits)
  finally show ?thesis by (simp only: ma mb)
qed

lemma glob_char_not_Nil [simp]: "glob_char c \<noteq> []"
  by (simp add: glob_char_def)

lemma make_regs_glob_text:
  assumes "explicit_attempt rt (js_trim s) = None" and "CHR '','' \<notin> set s"
    and "js_trim s \<noteq> []" and "rt_compiles rt (concat (map glob_char (js_trim s))) True"
  shows "make_regs rt s rs = (rs @ [RegExp (concat (map glob_char (js_trim s))) True], None)"
proof -
  have "CHR '','' \<notin> set (js_trim s)" using assms(2) set_js_trim by blast
  then have "js_split CHR '','' (js_trim s) = [js_trim s]" by simp
  with assms show ?thesis
    by (simp add: make_regs.simps [of rt s] Let_def glob_regexp_one_pass)
qed

text \<open>C11: compiling a comma-separated text \<open>a,b\<close> (that is not itself an explicit regular expression, with comma-free \<open>a\<close> and \<open>b\<close>) yields the matchers of \<open>a\<close> followed by those of \<open>b\<close>.\<close>

theorem make_regs_comma_concat:
  assumes "explicit_attempt rt (js_trim (a @ CHR '','' # b)) = None"
    and "CHR '','' \<notin> set a" and "CHR '','' \<notin> set b"
    and "make_regs rt a [] = (ra, None)" and "make_regs rt b [] = (rb, None)"
  shows "make_regs rt (a @ CHR '','' # b) [] = (ra @ rb, None)"
proof -
  have "make_regs rt b ra = (ra @ rb, None)"
    using make_regs_acc [of rt b ra] assms(5) by simp
  with make_regs_comma [OF assms(1-3), of "[]"] assms(4) show ?thesis by simp
qed

lemma explicit_regexp_body: "explicit_regexp s = Some (b, ci) \<Longrightarrow> b \<noteq> []"
  using explicit_scan_grows [of "[]" "tl s" b ci] by (auto simp: explicit_regexp_def split: if_splits)

lemma explicit_attempt_fallback:
  "explicit_regexp s = Some (b, ci) \<Longrightarrow> \<not> rt_compiles rt b ci \<Longrightarrow> explicit_attempt rt s = None"
  by (auto simp: explicit_attempt_def dest: explicit_regexp_body)

text \<open>C13: an explicit regular expression whose body the engine rejects falls back to the glob reading of the whole text, slashes included, without an error.\<close>

theorem make_regs_explicit_fallback:
  assumes "b \<noteq> []" and "\<forall>c\<in>set b. \<not> js_line_term c" and "\<not> rt_compiles rt b True"
    and "CHR '','' \<notin> set b"
    and "rt_compiles rt (concat (map glob_char (CHR ''/'' # b @ ''/i''))) True"
  shows "make_regs rt (CHR ''/'' # b @ ''/i'') rs =
           (rs @ [RegExp (concat (map glob_char (CHR ''/'' # b @ ''/i''))) True], None)"
proof -
  let ?s = "CHR ''/'' # b @ ''/i''"
  have t: "js_trim ?s = ?s" by (rule js_trim_id) auto
  have "explicit_regexp ?s = Some (b, True)"
    using explicit_scan_ci [OF assms(1,2), of "[]"] by (simp add: explicit_regexp_def)
  then have "explicit_attempt rt (js_trim ?s) = None"
    using assms(3) t by (simp add: explicit_attempt_fallback)
  moreover have "CHR '','' \<notin> set ?s" using assms(4) by simp
  ultimately show ?thesis using make_regs_glob_text [of rt ?s] t assms(5) by simp
qed

text \<open>C12: text of the explicit form \<open>/body/i\<close> or \<open>/body/\<close> (a body without line terminators that the engine accepts) compiles to the single matcher with source \<open>body\<close>, verbatim, case-insensitive exactly for the \<open>i\<close> flag.\<close>

theorem make_regs_explicit:
  assumes "b \<noteq> []" and "\<forall>c\<in>set b. \<not> js_line_term c"
  shows "(rt_compiles rt b True \<longrightarrow> make_regs rt (CHR ''/'' # b @ ''/i'') rs = (rs @ [RegExp b True], None)) \<and>
         (rt_compiles rt b False \<longrightarrow> make_regs rt (CHR ''/'' # b @ ''/'') rs = (rs @ [RegExp b False], None))"
  using make_regs_explicit_ci [OF assms] make_regs_explicit_cs [OF assms] by blast

text \<open>C14: the closing slash of the explicit form is optional (line 75): a slash followed by any body of at least two characters, without line terminators or trailing white space, that does not end in \<open>/\<close> or \<open>/i\<close> after a non-empty prefix, is read as the case-sensitive expression of the whole body, not as a glob; so \<open>/unterminated\<close> is the expression \<open>unterminated\<close> and \<open>//i\<close> is the expression \<open>/i\<close>.\<close>

theorem make_regs_explicit_quirks:
  assumes "2 \<le> length b" and "\<forall>c\<in>set b. \<not> js_line_term c" and "\<not> js_space (last b)"
    and "\<not> (\<exists>u. u \<noteq> [] \<and> b = u @ ''/i'')" and "\<not> (\<exists>u. u \<noteq> [] \<and> b = u @ ''/'')"
    and "rt_compiles rt b False"
  shows "make_regs rt (CHR ''/'' # b) rs = (rs @ [RegExp b False], None)"
proof -
  let ?s = "CHR ''/'' # b"
  have bn: "b \<noteq> []" using assms(1) by auto
  have t: "js_trim ?s = ?s" using bn assms(3) by (intro js_trim_id) (simp_all add: js_space_def js_line_term_def)
  have e: "explicit_regexp ?s = Some (b, False)"
    using explicit_scan_plain [OF bn assms(2,4,5), of "[]"] by (simp add: explicit_regexp_def)
  have l: "2 < length ?s" using assms(1) by simp
  have "explicit_attempt rt ?s = Some (Some (RegExp b False))"
    using explicit_attempt_slash [OF e l, of rt] assms(6) by simp
  with t show ?thesis by (simp add: make_regs.simps [of rt ?s] Let_def)
qed

section \<open>Witnesses\<close>

text \<open>
  The hypotheses of the compiler's theorems hold together: instances on concrete
  texts with an engine that accepts every source (and, for the fallback, one that
  rejects the body \<open>a[\<close>, as JavaScript does).
\<close>

lemma trim_foo_bar: "js_trim ''foo,bar'' = ''foo,bar''"
  by (rule js_trim_id) (simp_all add: js_space_def js_line_term_def)

theorem make_regs_comma_concat_witness:
  "explicit_attempt \<lparr>rt_compiles = (\<lambda>_ _. True), rt_search = (\<lambda>_ _ _. False)\<rparr> (js_trim ''foo,bar'') = None \<and>
   make_regs \<lparr>rt_compiles = (\<lambda>_ _. True), rt_search = (\<lambda>_ _ _. False)\<rparr> ''foo'' [] = ([RegExp ''foo'' True], None) \<and>
   make_regs \<lparr>rt_compiles = (\<lambda>_ _. True), rt_search = (\<lambda>_ _ _. False)\<rparr> ''bar'' [] = ([RegExp ''bar'' True], None) \<and>
   make_regs \<lparr>rt_compiles = (\<lambda>_ _. True), rt_search = (\<lambda>_ _ _. False)\<rparr> ''foo,bar'' [] = ([RegExp ''foo'' True, RegExp ''bar'' True], None)"
proof -
  have e: "explicit_attempt \<lparr>rt_compiles = (\<lambda>_ _. True), rt_search = (\<lambda>_ _ _. False)\<rparr> (js_trim ''foo,bar'') = None"
    by (simp add: trim_foo_bar explicit_attempt_def)
  have a: "make_regs \<lparr>rt_compiles = (\<lambda>_ _. True), rt_search = (\<lambda>_ _ _. False)\<rparr> ''foo'' [] = ([RegExp ''foo'' True], None)"
    by (simp add: make_regs.simps [of _ "''foo''"] js_trim_def js_space_def js_line_term_def
        explicit_attempt_def glob_regexp_def glob_meta_def)
  have b: "make_regs \<lparr>rt_compiles = (\<lambda>_ _. True), rt_search = (\<lambda>_ _ _. False)\<rparr> ''bar'' [] = ([RegExp ''bar'' True], None)"
    by (simp add: make_regs.simps [of _ "''bar''"] js_trim_def js_space_def js_line_term_def
        explicit_attempt_def glob_regexp_def glob_meta_def)
  have "make_regs \<lparr>rt_compiles = (\<lambda>_ _. True), rt_search = (\<lambda>_ _ _. False)\<rparr> (''foo'' @ CHR '','' # ''bar'') [] = ([RegExp ''foo'' True] @ [RegExp ''bar'' True], None)"
    using make_regs_comma_concat [OF _ _ _ a b] e by simp
  with e a b show ?thesis by simp
qed


theorem make_regs_explicit_fallback_witness:
  "\<not> rt_compiles \<lparr>rt_compiles = (\<lambda>src _. src \<noteq> ''a[''), rt_search = (\<lambda>_ _ _. False)\<rparr> ''a['' True \<and>
   make_regs \<lparr>rt_compiles = (\<lambda>src _. src \<noteq> ''a[''), rt_search = (\<lambda>_ _ _. False)\<rparr> ''/a[/i'' [] = ([RegExp (concat (map glob_char ''/a[/i'')) True], None)"
  using make_regs_explicit_fallback [of "''a[''" "\<lparr>rt_compiles = (\<lambda>src _. src \<noteq> ''a[''), rt_search = (\<lambda>_ _ _. False)\<rparr>" "[]"]
  by (simp add: js_line_term_def glob_char_def glob_meta_def)


theorem make_regs_exn_witness:
  "explicit_attempt \<lparr>rt_compiles = (\<lambda>_ _. True), rt_search = (\<lambda>_ _ _. False)\<rparr> (js_trim ''/foo/i'') \<noteq> None \<and> snd (make_regs \<lparr>rt_compiles = (\<lambda>_ _. True), rt_search = (\<lambda>_ _ _. False)\<rparr> ''/foo/i'' []) = None"
proof -
  have t: "js_trim ''/foo/i'' = ''/foo/i''"
    by (rule js_trim_id) (simp_all add: js_space_def js_line_term_def)
  have "explicit_attempt \<lparr>rt_compiles = (\<lambda>_ _. True), rt_search = (\<lambda>_ _ _. False)\<rparr> (js_trim ''/foo/i'') \<noteq> None"
    by (simp add: t explicit_attempt_def explicit_regexp_def js_line_term_def)
  with make_regs_exn [of "\<lparr>rt_compiles = (\<lambda>_ _. True), rt_search = (\<lambda>_ _ _. False)\<rparr>" "''/foo/i''" "[]"] show ?thesis by simp
qed

theorem make_regs_explicit_witness:
  "make_regs \<lparr>rt_compiles = (\<lambda>_ _. True), rt_search = (\<lambda>_ _ _. False)\<rparr> ''/foo/i'' [] = ([RegExp ''foo'' True], None) \<and>
   make_regs \<lparr>rt_compiles = (\<lambda>_ _. True), rt_search = (\<lambda>_ _ _. False)\<rparr> ''/foo/'' [] = ([RegExp ''foo'' False], None)"
  using make_regs_explicit [of "''foo''" "\<lparr>rt_compiles = (\<lambda>_ _. True), rt_search = (\<lambda>_ _ _. False)\<rparr>" "[]"]
  by (simp add: js_line_term_def)

theorem make_regs_explicit_quirks_witness:
  "2 \<le> length ''/i'' \<and> \<not> js_space (last ''/i'') \<and>
   make_regs \<lparr>rt_compiles = (\<lambda>_ _. True), rt_search = (\<lambda>_ _ _. False)\<rparr> ''//i'' [] = ([RegExp ''/i'' False], None)"
proof -
  have u: "\<not> (\<exists>u. u \<noteq> [] \<and> ''/i'' = u @ ''/i'')" and v: "\<not> (\<exists>u. u \<noteq> [] \<and> ''/i'' = u @ ''/'')"
    by (auto simp: append_eq_Cons_conv)
  show ?thesis
    using make_regs_explicit_quirks [of "''/i''" "\<lparr>rt_compiles = (\<lambda>_ _. True), rt_search = (\<lambda>_ _ _. False)\<rparr>" "[]"] u v
    by (simp add: js_line_term_def js_space_def)
qed

end
