(* ===== verification/Prefs.thy ===== *)
theory Prefs
  imports Prelude
begin

text \<open>
  The Mozilla preference store as \<open>resource://dta/preferences.jsm\<close> exposes it
  (not part of the repository; modelled from the spec, section 6): every key has
  an optional default value and an optional user value, \<open>get\<close> reads the user
  value first, \<open>set\<close> writes a user value, \<open>resetBranch(prefix)\<close> drops the user
  values of every key that starts with the prefix, \<open>getChildren(prefix)\<close> lists
  the keys under it.  Both layers are association lists; a well-formed store has
  distinct keys in each.  The writes the filters perform go through the
  interface \<open>store_ops\<close>, so that the filter lemmas hold for any store and the
  system model can attach the manager's observer to every write.
\<close>

record prefs =
  pr_default :: "(string \<times> pval) list"
  pr_user :: "(string \<times> pval) list"

definition pref_get :: "prefs \<Rightarrow> string \<Rightarrow> pval option" where
  "pref_get p k = (case map_of (pr_user p) k of Some v \<Rightarrow> Some v | None \<Rightarrow> map_of (pr_default p) k)"

definition pref_has_user :: "prefs \<Rightarrow> string \<Rightarrow> bool" where
  "pref_has_user p k \<longleftrightarrow> map_of (pr_user p) k \<noteq> None"

definition pref_set :: "string \<Rightarrow> pval \<Rightarrow> prefs \<Rightarrow> prefs" where
  "pref_set k v p = p\<lparr>pr_user := AList.update k v (pr_user p)\<rparr>"

definition pref_reset_branch :: "string \<Rightarrow> prefs \<Rightarrow> prefs" where
  "pref_reset_branch b p = p\<lparr>pr_user := filter (\<lambda>(k, _). \<not> js_starts_with k b) (pr_user p)\<rparr>"

definition pref_children :: "string \<Rightarrow> prefs \<Rightarrow> string list" where
  "pref_children b p =
     filter (\<lambda>k. js_starts_with k b) (remdups (map fst (pr_user p) @ map fst (pr_default p)))"

definition prefs_wf :: "prefs \<Rightarrow> bool" where
  "prefs_wf p \<longleftrightarrow> distinct (map fst (pr_user p)) \<and> distinct (map fst (pr_default p))"

text \<open>The writes a component performs on a store of type \<open>'s\<close>.\<close>

record 's store_ops =
  so_set :: "string \<Rightarrow> pval \<Rightarrow> 's \<Rightarrow> 's"
  so_reset :: "string \<Rightarrow> 's \<Rightarrow> 's"

definition plain_store :: "prefs store_ops" where
  "plain_store = \<lparr>so_set = pref_set, so_reset = pref_reset_branch\<rparr>"

section \<open>Lookup after update\<close>

lemma pref_default_set [simp]: "pr_default (pref_set k v p) = pr_default p"
  and pref_default_reset [simp]: "pr_default (pref_reset_branch b p) = pr_default p"
  by (simp_all add: pref_set_def pref_reset_branch_def)

lemma pref_get_set [simp]:
  "pref_get (pref_set k v p) k' = (if k' = k then Some v else pref_get p k')"
  by (simp add: pref_get_def pref_set_def update_conv' split: option.split)

lemma pref_has_user_set [simp]:
  "pref_has_user (pref_set k v p) k' = (k' = k \<or> pref_has_user p k')"
  by (simp add: pref_has_user_def pref_set_def update_conv')

lemma map_of_filter_keys:
  "map_of (filter (\<lambda>(k, _). P k) xs) k = (if P k then map_of xs k else None)"
  by (induction xs) auto

lemma pref_get_reset_branch [simp]:
  "pref_get (pref_reset_branch b p) k =
     (if js_starts_with k b then map_of (pr_default p) k else pref_get p k)"
  by (simp add: pref_get_def pref_reset_branch_def map_of_filter_keys split: option.split)

lemma pref_has_user_reset_branch [simp]:
  "pref_has_user (pref_reset_branch b p) k = (\<not> js_starts_with k b \<and> pref_has_user p k)"
  by (simp add: pref_has_user_def pref_reset_branch_def map_of_filter_keys)

lemma pref_get_None:
  "pref_get p k = None \<longleftrightarrow> k \<notin> fst ` set (pr_user p) \<and> k \<notin> fst ` set (pr_default p)"
proof (cases "map_of (pr_user p) k")
  case None
  have "pref_get p k = map_of (pr_default p) k" by (simp add: pref_get_def None)
  with None show ?thesis by (simp add: map_of_eq_None_iff)
next
  case (Some v)
  then have "k \<in> fst ` set (pr_user p)" by (metis map_of_eq_None_iff option.distinct(1))
  with Some show ?thesis by (simp add: pref_get_def)
qed

lemma set_pref_children:
  "set (pref_children b p) = {k. js_starts_with k b \<and> pref_get p k \<noteq> None}"
proof (rule set_eqI)
  fix k
  show "k \<in> set (pref_children b p) \<longleftrightarrow> k \<in> {k. js_starts_with k b \<and> pref_get p k \<noteq> None}"
    using pref_get_None [of p k] by (auto simp: pref_children_def)
qed

lemma distinct_pref_children: "distinct (pref_children b p)"
  by (simp add: pref_children_def)

lemma prefs_wf_set: "prefs_wf p \<Longrightarrow> prefs_wf (pref_set k v p)"
  by (simp add: prefs_wf_def pref_set_def distinct_update)

lemma prefs_wf_reset: "prefs_wf p \<Longrightarrow> prefs_wf (pref_reset_branch b p)"
  by (simp add: prefs_wf_def pref_reset_branch_def distinct_map_filter)

end
