(* ===== verification/JsNumber.thy ===== *)
theory JsNumber
  imports Prelude
begin

text \<open>
  The number conversions the filter's category goes through: \<open>this._type\<close>
  holds whatever \<open>Preferences.get\<close> returned (line 163), and \<open>i.type & type\<close>
  (lines 365, 379) applies \<open>ToInt32\<close> (ECMA-262 3rd edition, 9.5) to it; a
  string is first read by \<open>ToNumber\<close> (9.3.1): optional white space, then
  a hexadecimal integer \<open>0x..\<close>, or a signed decimal literal (digits, an
  optional fraction, an optional exponent) or \<open>Infinity\<close>; anything else
  is \<open>NaN\<close>.  The mathematical value is rounded to the nearest IEEE-754 double
  (ties to even), as SpiderMonkey's correctly rounding \<open>js_strtod\<close> does, and
  \<open>ToInt32\<close> truncates the double and reduces it modulo \<open>2^32\<close>.
  The double is kept as a significand and a binary exponent: \<open>(n, sc)\<close> is
  \<open>n * 2^sc\<close>.
\<close>

section \<open>Digits\<close>

text \<open>Magnitudes are integers, never negative, so that they evaluate in binary.\<close>

definition js_digit :: "char \<Rightarrow> bool" where
  "js_digit c \<longleftrightarrow> CHR ''0'' \<le> c \<and> c \<le> CHR ''9''"

fun js_digits_val :: "int \<Rightarrow> string \<Rightarrow> int" where
  "js_digits_val acc [] = acc"
| "js_digits_val acc (c # cs) = js_digits_val (10 * acc + (int (of_char c) - 48)) cs"

definition hex_digit :: "char \<Rightarrow> int option" where
  "hex_digit c =
     (if js_digit c then Some (int (of_char c) - 48)
      else if CHR ''a'' \<le> c \<and> c \<le> CHR ''f'' then Some (int (of_char c) - 87)
      else if CHR ''A'' \<le> c \<and> c \<le> CHR ''F'' then Some (int (of_char c) - 55)
      else None)"

fun hex_val :: "int \<Rightarrow> string \<Rightarrow> int option" where
  "hex_val acc [] = Some acc"
| "hex_val acc (c # cs) = (case hex_digit c of None \<Rightarrow> None | Some d \<Rightarrow> hex_val (16 * acc + d) cs)"

section \<open>\<open>ToNumber\<close> applied to a string\<close>

text \<open>The value of a numeric string: \<open>NaN\<close>, an infinity, or \<open>\<plusminus>m * 10^e\<close> (\<open>m \<ge> 0\<close>).\<close>

datatype str_num = SNaN | SInf bool | SDec bool int int

text \<open>
  \<open>StrUnsignedDecimalLiteral\<close> without \<open>Infinity\<close>: the significant digits
  (integer and fraction part) and the decimal exponent.
\<close>

definition dec_exponent :: "string \<Rightarrow> int option" where
  "dec_exponent r =
     (let ds = (if r \<noteq> [] \<and> (hd r = CHR ''+'' \<or> hd r = CHR ''-'') then tl r else r)
      in if ds \<noteq> [] \<and> list_all js_digit ds
         then Some (if r \<noteq> [] \<and> hd r = CHR ''-'' then - js_digits_val 0 ds else js_digits_val 0 ds)
         else None)"

definition dec_literal :: "string \<Rightarrow> (int \<times> int) option" where
  "dec_literal u =
     (let ip = takeWhile js_digit u; r1 = dropWhile js_digit u;
          dot = (r1 \<noteq> [] \<and> hd r1 = CHR ''.'');
          fp = (if dot then takeWhile js_digit (tl r1) else []);
          r2 = (if dot then dropWhile js_digit (tl r1) else r1);
          m = js_digits_val 0 (ip @ fp)
      in if ip = [] \<and> fp = [] then None
         else if r2 = [] then Some (m, - int (length fp))
         else if hd r2 = CHR ''e'' \<or> hd r2 = CHR ''E'' then
           (case dec_exponent (tl r2) of None \<Rightarrow> None | Some x \<Rightarrow> Some (m, x - int (length fp)))
         else None)"

definition str_to_num :: "string \<Rightarrow> str_num" where
  "str_to_num s =
     (let t = js_trim s in
      if t = [] then SDec False 0 0
      else if 2 < length t \<and> (take 2 t = ''0x'' \<or> take 2 t = ''0X'') then
        (case hex_val 0 (drop 2 t) of None \<Rightarrow> SNaN | Some n \<Rightarrow> SDec False n 0)
      else
        (let neg = (hd t = CHR ''-'');
             u = (if hd t = CHR ''-'' \<or> hd t = CHR ''+'' then tl t else t)
         in if u = ''Infinity'' then SInf neg
            else case dec_literal u of None \<Rightarrow> SNaN | Some (m, e) \<Rightarrow> SDec neg m e))"

section \<open>Rounding to a double\<close>

text \<open>The number of binary digits of a positive \<open>n\<close>.\<close>

function nbits :: "int \<Rightarrow> nat" where
  "nbits n = (if n \<le> 0 then 0 else Suc (nbits (n div 2)))"
  by auto
termination by (relation "measure nat") auto

text \<open>\<open>num / den\<close> rounded to an integer, ties to even (\<open>den > 0\<close>).\<close>

definition rne :: "int \<Rightarrow> int \<Rightarrow> int" where
  "rne num den =
     (let q = num div den; r = num mod den in if den < 2 * r \<or> (2 * r = den \<and> odd q) then q + 1 else q)"

text \<open>\<open>\<lfloor>log2 (a / b)\<rfloor>\<close> for positive \<open>a\<close> and \<open>b\<close>.\<close>

definition log2_floor :: "int \<Rightarrow> int \<Rightarrow> int" where
  "log2_floor a b =
     (let k = int (nbits a) - int (nbits b)
      in if (if 0 \<le> k then b * 2 ^ nat k \<le> a else b \<le> a * 2 ^ nat (- k)) then k else k - 1)"

text \<open>
  The double nearest to \<open>a / b\<close> (\<open>a \<ge> 0\<close>, \<open>b > 0\<close>): 53 significant bits,
  the exponent of the last one at least \<open>-1074\<close> (subnormals); \<open>None\<close> is an
  overflow to \<open>Infinity\<close> (\<open>2^1024\<close> or more after rounding: more than
  1024 binary digits).
\<close>

definition dbl_round :: "int \<Rightarrow> int \<Rightarrow> (int \<times> int) option" where
  "dbl_round a b =
     (if a = 0 then Some (0, 0)
      else
        (let sc = max (log2_floor a b - 52) (-1074);
             n = (if 0 \<le> sc then rne a (b * 2 ^ nat sc) else rne (a * 2 ^ nat (- sc)) b)
         in if 1024 < int (nbits n) + sc then None else Some (n, sc)))"

text \<open>The integer part of the double \<open>n * 2^sc\<close>.\<close>

definition dbl_trunc :: "int \<times> int \<Rightarrow> int" where
  "dbl_trunc d = (case d of (n, sc) \<Rightarrow> if 0 \<le> sc then n * 2 ^ nat sc else n div 2 ^ nat (- sc))"

section \<open>\<open>ToInt32\<close>\<close>

definition num_to_int32 :: "str_num \<Rightarrow> 32 word" where
  "num_to_int32 x =
     (case x of
        SNaN \<Rightarrow> 0
      | SInf _ \<Rightarrow> 0
      | SDec neg m e \<Rightarrow>
          (let (a, b) = (if 0 \<le> e then (m * 10 ^ nat e, 1) else (m, 10 ^ nat (- e)))
           in case dbl_round a b of
                None \<Rightarrow> 0
              | Some d \<Rightarrow> word_of_int (if neg then - dbl_trunc d else dbl_trunc d)))"

definition js_str_to_int32 :: "string \<Rightarrow> 32 word" where
  "js_str_to_int32 s = num_to_int32 (str_to_num s)"

text \<open>\<open>ToInt32\<close> of a value read from the store (\<open>undefined\<close> when absent, hence \<open>NaN\<close>).\<close>

fun js_to_int32 :: "pval option \<Rightarrow> 32 word" where
  "js_to_int32 None = 0"
| "js_to_int32 (Some (PBool b)) = (if b then 1 else 0)"
| "js_to_int32 (Some (PInt n)) = n"
| "js_to_int32 (Some (PStr s)) = js_str_to_int32 s"

declare nbits.simps [simp del]

section \<open>Binary digits\<close>

lemma nbits_nonpos [simp]: "n \<le> 0 \<Longrightarrow> nbits n = 0"
  by (simp add: nbits.simps)

lemma nbits_pos: "0 < n \<Longrightarrow> nbits n = Suc (nbits (n div 2))"
  by (simp add: nbits.simps)

lemma nbits_bounds: "0 < n \<Longrightarrow> 2 ^ (nbits n - 1) \<le> n \<and> n < 2 ^ nbits n"
proof (induction n rule: nbits.induct)
  case (1 n)
  show ?case
  proof (cases "n div 2 = 0")
    case True
    then have "n = 1" using "1.prems" by auto
    then show ?thesis by (simp add: nbits_pos)
  next
    case False
    then have pos: "0 < n div 2" using "1.prems" by simp
    then have ih: "2 ^ (nbits (n div 2) - 1) \<le> n div 2" "n div 2 < 2 ^ nbits (n div 2)"
      using "1.IH" "1.prems" by simp_all
    have "0 < nbits (n div 2)" using pos by (simp add: nbits_pos)
    then have p: "(2::int) ^ nbits (n div 2) = 2 * 2 ^ (nbits (n div 2) - 1)"
      by (metis Suc_diff_1 power_Suc)
    have "2 * (n div 2) \<le> n" "n \<le> 2 * (n div 2) + 1" by simp_all
    with ih p have "2 ^ nbits (n div 2) \<le> n \<and> n < 2 * 2 ^ nbits (n div 2)" by linarith
    then show ?thesis using "1.prems" by (simp add: nbits_pos)
  qed
qed

lemma nbits_le:
  assumes "n < 2 ^ k"
  shows "nbits n \<le> k"
proof (cases "n \<le> 0")
  case False
  then have "2 ^ (nbits n - 1) \<le> n" using nbits_bounds by simp
  then have "(2::int) ^ (nbits n - 1) < 2 ^ k" using assms by (rule le_less_trans)
  then have "nbits n - 1 < k" using power_strict_increasing_iff [of "2::int" "nbits n - 1" k] by simp
  then show ?thesis by simp
qed simp

lemma nbits_ge:
  assumes "2 ^ k \<le> n"
  shows "k < nbits n"
proof -
  have "(0::int) < 2 ^ k" by simp
  then have "0 < n" using assms by linarith
  then have "n < 2 ^ nbits n" using nbits_bounds by simp
  with assms have "(2::int) ^ k < 2 ^ nbits n" by (rule le_less_trans)
  then show ?thesis using power_strict_increasing_iff [of "2::int" k "nbits n"] by simp
qed

lemma log2_floor_int: "0 < n \<Longrightarrow> log2_floor n 1 = int (nbits n) - 1"
  using nbits_bounds [of n] by (simp add: log2_floor_def Let_def nbits_pos)



section \<open>Decimal integers\<close>

lemma digit_not_space: "js_digit c \<Longrightarrow> \<not> js_space c"
  by (auto simp: js_digit_def js_space_def js_line_term_def)

lemma js_digits_val_nonneg: "0 \<le> acc \<Longrightarrow> list_all js_digit ds \<Longrightarrow> 0 \<le> js_digits_val acc ds"
proof (induction ds arbitrary: acc)
  case (Cons c ds)
  have "48 \<le> int (of_char c)" using Cons.prems(2) by (simp add: js_digit_def less_eq_char_def)
  then show ?case using Cons by simp
qed simp

lemma dec_literal_digits:
  assumes "list_all js_digit ds" and "ds \<noteq> []"
  shows "dec_literal ds = Some (js_digits_val 0 ds, 0)"
proof -
  have t: "takeWhile js_digit ds = ds" and d: "dropWhile js_digit ds = []"
    using assms(1) by (simp_all add: list_all_iff)
  show ?thesis using assms(2) by (simp add: dec_literal_def Let_def t d del: takeWhile_eq_all_conv)
qed

lemma digits_str_to_num:
  assumes "ds \<noteq> []" and "list_all js_digit ds"
  shows "str_to_num ds = SDec False (js_digits_val 0 ds) 0 \<and>
         str_to_num (CHR ''-'' # ds) = SDec True (js_digits_val 0 ds) 0"
proof -
  have dig: "\<And>c. c \<in> set ds \<Longrightarrow> js_digit c" using assms(2) by (simp add: list_all_iff)
  have nd: "\<not> js_digit CHR ''x''" "\<not> js_digit CHR ''X''" "\<not> js_digit CHR ''-''" "\<not> js_digit CHR ''+''"
    "\<not> js_digit CHR ''I''"
    by (simp_all add: js_digit_def)
  have hl: "hd ds \<in> set ds" "last ds \<in> set ds" using assms(1) by simp_all
  have t1: "js_trim ds = ds" using hl dig digit_not_space assms(1) by (intro js_trim_id) auto
  have "\<not> js_space CHR ''-''" by (simp add: js_space_def js_line_term_def)
  then have t2: "js_trim (CHR ''-'' # ds) = CHR ''-'' # ds" using hl dig digit_not_space assms(1)
    by (intro js_trim_id) auto
  have hx: "take 2 ds \<noteq> ''0x'' \<and> take 2 ds \<noteq> ''0X''"
  proof -
    have "\<not> (CHR ''x'' \<in> set ds)" "\<not> (CHR ''X'' \<in> set ds)" using dig nd by blast+
    then show ?thesis by (metis in_set_takeD list.set_intros(1) list.set_intros(2))
  qed
  have "hd ds \<noteq> CHR ''-'' \<and> hd ds \<noteq> CHR ''+''" using dig hl nd by metis
  moreover have "ds \<noteq> ''Infinity''" using dig nd by (metis list.set_intros(1))
  ultimately show ?thesis using t1 t2 hx assms
    by (simp add: str_to_num_def Let_def dec_literal_digits)
qed

lemma rne_1 [simp]: "rne x 1 = x"
  by (simp add: rne_def)

text \<open>Integers below \<open>2^53\<close> are doubles: rounding and truncation give them back.\<close>

lemma dbl_round_exact:
  assumes "0 \<le> n" and "n < 2 ^ 53"
  shows "map_option dbl_trunc (dbl_round n 1) = Some n"
proof (cases "n = 0")
  case True
  then show ?thesis by (simp add: dbl_round_def dbl_trunc_def)
next
  case False
  then have pos: "0 < n" using assms(1) by simp
  define b where "b = nbits n"
  define sc where "sc = int b - 53"
  define k where "k = 53 - b"
  have b53: "b \<le> 53" using nbits_le assms(2) by (simp add: b_def)
  have b1: "1 \<le> b" using pos by (simp add: nbits_pos b_def)
  have sc_eq: "max (log2_floor n 1 - 52) (-1074) = sc"
    using pos b1 by (simp add: log2_floor_int b_def sc_def)
  have nk: "nat (- sc) = k" by (simp add: sc_def k_def)
  have N: "(if 0 \<le> sc then rne n (1 * 2 ^ nat sc) else rne (n * 2 ^ nat (- sc)) 1) = n * 2 ^ k"
  proof (cases "0 \<le> sc")
    case True
    then have "sc = 0" "k = 0" using b53 by (simp_all add: sc_def k_def)
    then show ?thesis by simp
  qed (simp add: nk)
  have "n < 2 ^ b" using nbits_bounds pos by (simp add: b_def)
  then have "n * 2 ^ k < 2 ^ b * 2 ^ k" by simp
  also have "\<dots> = 2 ^ 53" using b53 by (simp add: k_def flip: power_add)
  finally have "nbits (n * 2 ^ k) \<le> 53" by (rule nbits_le)
  then have no: "\<not> 1024 < int (nbits (n * 2 ^ k)) + sc" using b53 by (simp add: sc_def)
  have dr: "dbl_round n 1 = Some (n * 2 ^ k, sc)"
    using pos no by (simp only: dbl_round_def Let_def sc_eq N) simp
  have "dbl_trunc (n * 2 ^ k, sc) = n"
  proof (cases "0 \<le> sc")
    case True
    then have "sc = 0" "k = 0" using b53 by (simp_all add: sc_def k_def)
    then show ?thesis by (simp add: dbl_trunc_def)
  qed (simp add: dbl_trunc_def nk)
  then show ?thesis by (simp add: dr)
qed

text \<open>From \<open>2^84\<close> on, a double is a multiple of \<open>2^32\<close> (or \<open>Infinity\<close>).\<close>

lemma dbl_round_large:
  assumes "2 ^ 84 \<le> n"
  shows "dbl_round n 1 = None \<or> (\<exists>m sc. dbl_round n 1 = Some (m, sc) \<and> 32 \<le> sc)"
proof -
  have "84 < nbits n" using assms by (rule nbits_ge)
  moreover have "0 < n" using assms by (smt (z3) zero_less_power)
  ultimately have "32 \<le> max (log2_floor n 1 - 52) (-1074)" by (simp add: log2_floor_int)
  then show ?thesis using \<open>0 < n\<close> by (auto simp: dbl_round_def Let_def)
qed

lemma word_of_int_mult_pow2:
  assumes "32 \<le> k"
  shows "(word_of_int (x * 2 ^ k) :: 32 word) = 0"
proof -
  have z: "(2::32 word) ^ k = 0" using assms by simp
  have "(word_of_int (x * 2 ^ k) :: 32 word) = word_of_int x * 2 ^ k" by simp
  also have "\<dots> = 0" by (simp only: z mult_zero_right)
  finally show ?thesis .
qed

lemma num_to_int32_int:
  "num_to_int32 (SDec neg m 0) =
     (case dbl_round m 1 of None \<Rightarrow> 0 | Some d \<Rightarrow> word_of_int (if neg then - dbl_trunc d else dbl_trunc d))"
  by (simp add: num_to_int32_def)

lemma num_to_int32_large:
  assumes "2 ^ 84 \<le> m"
  shows "num_to_int32 (SDec neg m 0) = 0"
proof -
  consider "dbl_round m 1 = None" | n sc where "dbl_round m 1 = Some (n, sc)" "32 \<le> sc"
    using dbl_round_large [OF assms] by auto
  then show ?thesis
  proof cases
    case 1
    then show ?thesis by (simp add: num_to_int32_int)
  next
    case 2
    then have "32 \<le> nat sc" by simp
    then have "(word_of_int (n * 2 ^ nat sc) :: 32 word) = 0" "(word_of_int (- n * 2 ^ nat sc) :: 32 word) = 0"
      by (simp_all only: word_of_int_mult_pow2)
    then show ?thesis using 2 by (simp add: num_to_int32_int dbl_trunc_def)
  qed
qed

text \<open>\<open>ToInt32\<close> of a string of decimal digits: below \<open>2^53\<close> the value is exact and wraps modulo \<open>2^32\<close> (a leading minus negates it), from \<open>2^84\<close> on the double is a multiple of \<open>2^32\<close> (or \<open>Infinity\<close>) and the result is 0.\<close>

lemma str_to_int32_decimal:
  assumes "ds \<noteq> []" and "list_all js_digit ds"
  shows "(js_digits_val 0 ds < 2 ^ 53 \<longrightarrow>
            js_str_to_int32 ds = word_of_int (js_digits_val 0 ds) \<and>
            uint (js_str_to_int32 ds) = js_digits_val 0 ds mod 2 ^ 32 \<and>
            js_str_to_int32 (CHR ''-'' # ds) = - js_str_to_int32 ds) \<and>
         (2 ^ 84 \<le> js_digits_val 0 ds \<longrightarrow>
            js_str_to_int32 ds = 0 \<and> js_str_to_int32 (CHR ''-'' # ds) = 0)"
proof -
  let ?v = "js_digits_val 0 ds"
  have nn: "0 \<le> ?v" using assms(2) by (simp add: js_digits_val_nonneg)
  have s: "js_str_to_int32 ds = num_to_int32 (SDec False ?v 0)"
    "js_str_to_int32 (CHR ''-'' # ds) = num_to_int32 (SDec True ?v 0)"
    using digits_str_to_num [OF assms] by (simp_all add: js_str_to_int32_def)
  have small: "js_str_to_int32 ds = word_of_int ?v \<and> uint (js_str_to_int32 ds) = ?v mod 2 ^ 32 \<and>
               js_str_to_int32 (CHR ''-'' # ds) = - js_str_to_int32 ds" if lt: "?v < 2 ^ 53"
  proof -
    obtain d where "dbl_round ?v 1 = Some d" "dbl_trunc d = ?v"
      using dbl_round_exact [OF nn lt] by auto
    then have w: "js_str_to_int32 ds = word_of_int ?v" "js_str_to_int32 (CHR ''-'' # ds) = word_of_int (- ?v)"
      using s by (simp_all add: num_to_int32_int)
    have "uint (word_of_int ?v :: 32 word) = ?v mod 2 ^ 32" by (simp only: uint_word_of_int) simp
    moreover have "(word_of_int (- ?v) :: 32 word) = - word_of_int ?v" by (rule wi_hom_neg [symmetric])
    ultimately show ?thesis using w by simp
  qed
  have large: "js_str_to_int32 ds = 0 \<and> js_str_to_int32 (CHR ''-'' # ds) = 0" if ge: "2 ^ 84 \<le> ?v"
    using s num_to_int32_large [OF ge] by simp
  show ?thesis using small large by blast
qed

end
