(* ===== verification/DtaFilter.thy ===== *)
theory DtaFilter
  imports PatternCompiler Prefs JsNumber
begin

text \<open>
  One filter (\<open>Filter\<close>, filterManager.js lines 28--214): its fields as a
  record, the dirty-tracking setters, \<open>match\<close>, \<open>load\<close> from the store,
  \<open>save\<close>, \<open>restore\<close> and \<open>remove\<close>.  \<open>f_name\<close> is \<open>this._id\<close>, the full
  preference branch (\<open>BASE\<close> and the id); a field the source leaves
  \<open>undefined\<close> until it is set is an \<open>option\<close> (\<open>f_expr\<close>, \<open>f_regs\<close>).  The
  value read from the store for \<open>active\<close> and \<open>type\<close> is kept as the interface
  reads it: \<open>ToBoolean\<close> and \<open>ToInt32\<close>.  Writes go through \<open>'s store_ops\<close>.
\<close>

definition BASE :: string where
  "BASE = ''extensions.dta.filters.''"

record dta_filter =
  f_name :: string
  f_label :: string
  f_active :: bool
  f_type :: "32 word"
  f_expr :: "string option"
  f_regs :: "matcher list option"
  f_modified :: bool
  f_def :: bool
  f_localized :: "string option"

text \<open>\<open>new Filter(name)\<close>: only \<open>_id\<close> is set.\<close>

definition new_filter :: "string \<Rightarrow> dta_filter" where
  "new_filter name =
     \<lparr>f_name = name, f_label = [], f_active = False, f_type = 0, f_expr = None, f_regs = None,
      f_modified = False, f_def = False, f_localized = None\<rparr>"

definition filter_id :: "dta_filter \<Rightarrow> string" where
  "filter_id f = drop (length BASE) (f_name f)"

definition filter_pref :: "dta_filter \<Rightarrow> string \<Rightarrow> string" where
  "filter_pref f s = f_name f @ CHR ''.'' # s"

section \<open>Setters\<close>

definition set_label :: "string \<Rightarrow> dta_filter \<Rightarrow> dta_filter" where
  "set_label v f = (if f_label f = v then f else f\<lparr>f_label := v, f_modified := True\<rparr>)"

definition set_active :: "bool \<Rightarrow> dta_filter \<Rightarrow> dta_filter" where
  "set_active v f = (if f_active f = v then f else f\<lparr>f_active := v, f_modified := True\<rparr>)"

definition set_type :: "32 word \<Rightarrow> dta_filter \<Rightarrow> dta_filter" where
  "set_type v f = (if f_type f = v then f else f\<lparr>f_type := v, f_modified := True\<rparr>)"

text \<open>
  \<open>set expression\<close> (lines 58--67): \<open>_expr\<close> and \<open>_regs\<close> are assigned before
  \<open>_makeRegs\<close> runs, \<open>_modified\<close> only after it returns.
\<close>

definition set_expression :: "regexp_rt \<Rightarrow> string \<Rightarrow> dta_filter \<Rightarrow> dta_filter js_outcome" where
  "set_expression rt v f =
     (if f_expr f = Some v then (f, None)
      else
        (let (rs, e) = make_regs rt v [];
             f' = f\<lparr>f_expr := Some v, f_regs := Some rs\<rparr>
         in if e = None then (f'\<lparr>f_modified := True\<rparr>, None) else (f', e)))"

section \<open>Matching\<close>

text \<open>
  \<open>match(str)\<close> (lines 137--146): \<open>undefined\<close> (false) for the empty string,
  a \<open>TypeError\<close> when \<open>_regs\<close> was never assigned, otherwise whether some
  regular expression is found in \<open>str\<close>.
\<close>

definition filter_match :: "regexp_rt \<Rightarrow> dta_filter \<Rightarrow> string \<Rightarrow> js_exn + bool" where
  "filter_match rt f str =
     (if str = [] then Inr False
      else case f_regs f of
        None \<Rightarrow> Inl TypeError
      | Some rs \<Rightarrow> Inr (list_ex (\<lambda>m. rt_search rt (re_source m) (re_ignore_case m) str) rs))"

section \<open>Loading\<close>

text \<open>
  \<open>this.expression = Preferences.get(this.pref('test'))\<close> in \<open>load\<close>: an absent
  value compares equal to the \<open>undefined\<close> field and changes nothing; a value
  that is not a string reaches \<open>str.replace\<close> and throws a \<open>TypeError\<close>.  (The
  filter is fresh in every caller, so \<open>_expr\<close> is \<open>undefined\<close> there; on the
  non-string path the model leaves \<open>f_expr\<close> as it was, the object being
  discarded.)
\<close>

definition load_expression :: "regexp_rt \<Rightarrow> pval option \<Rightarrow> dta_filter \<Rightarrow> dta_filter js_outcome" where
  "load_expression rt v f =
     (case v of
        None \<Rightarrow> (if f_expr f = None then (f, None) else (f\<lparr>f_expr := None, f_regs := Some []\<rparr>, Some TypeError))
      | Some (PStr s) \<Rightarrow> set_expression rt s f
      | Some _ \<Rightarrow> (f\<lparr>f_regs := Some []\<rparr>, Some TypeError))"

text \<open>
  \<open>load(localizedLabel)\<close> (lines 151--170).  The label must be a non-empty
  string (\<open>!this._label || !this._label.length\<close>); a non-empty localized label
  replaces it unless the user has set one.
\<close>

definition filter_load :: "regexp_rt \<Rightarrow> prefs \<Rightarrow> string option \<Rightarrow> dta_filter \<Rightarrow> dta_filter js_outcome" where
  "filter_load rt p loc f =
     (let f1 = f\<lparr>f_localized := loc\<rparr> in
      case pref_get p (filter_pref f ''label'') of
        Some (PStr l) \<Rightarrow>
          (if l = [] then (f1, Some (NsException ''Empty filter!''))
           else
             (let lab = (case loc of Some ll \<Rightarrow>
                           if ll \<noteq> [] \<and> \<not> pref_has_user p (filter_pref f ''label'') then ll else l
                         | None \<Rightarrow> l);
                  f2 = f1\<lparr>f_label := lab, f_active := js_truthy (pref_get p (filter_pref f ''active'')),
                          f_type := js_to_int32 (pref_get p (filter_pref f ''type'')),
                          f_def := js_contains (f_name f) ''deffilter''\<rparr>;
                  (f3, e) = load_expression rt (pref_get p (filter_pref f ''test'')) f2
              in if e = None then (f3\<lparr>f_modified := False\<rparr>, None) else (f3, e)))
      | _ \<Rightarrow> (f1, Some (NsException ''Empty filter!'')))"

section \<open>Saving, restoring, removing\<close>

text \<open>
  \<open>save()\<close> (lines 173--185) writes \<open>active\<close>, \<open>test\<close>, \<open>type\<close> and, last,
  \<open>label\<close>, whose presence the manager takes for the filter's existence.  A
  write of \<open>undefined\<close> (an expression never assigned) throws in the store's
  \<open>set\<close> (\<open>value.toString()\<close>), leaving the earlier writes done.
\<close>

definition save_writes :: "dta_filter \<Rightarrow> (string \<times> pval option) list" where
  "save_writes f =
     [(filter_pref f ''active'', Some (PBool (f_active f))),
      (filter_pref f ''test'', map_option PStr (f_expr f)),
      (filter_pref f ''type'', Some (PInt (f_type f))),
      (filter_pref f ''label'', Some (PStr (f_label f)))]"

fun apply_writes :: "'s store_ops \<Rightarrow> (string \<times> pval option) list \<Rightarrow> 's \<Rightarrow> 's js_outcome" where
  "apply_writes ops [] s = (s, None)"
| "apply_writes ops ((k, Some v) # ws) s = apply_writes ops ws (so_set ops k v s)"
| "apply_writes ops ((k, None) # ws) s = (s, Some TypeError)"

definition filter_save :: "'s store_ops \<Rightarrow> dta_filter \<Rightarrow> 's \<Rightarrow> ('s \<times> dta_filter) js_outcome" where
  "filter_save ops f s =
     (if \<not> f_modified f then ((s, f), None)
      else case apply_writes ops (save_writes f) s of
        (s', None) \<Rightarrow> ((s', f\<lparr>f_modified := False\<rparr>), None)
      | (s', Some e) \<Rightarrow> ((s', f), Some e))"

text \<open>\<open>_reset\<close>, \<open>restore\<close>, \<open>remove\<close> (lines 187--205): the branch is \<open>this._id\<close>, with no trailing dot.\<close>

definition filter_reset :: "'s store_ops \<Rightarrow> dta_filter \<Rightarrow> 's \<Rightarrow> 's" where
  "filter_reset ops f s = so_reset ops (f_name f) s"

definition filter_restore :: "'s store_ops \<Rightarrow> dta_filter \<Rightarrow> 's \<Rightarrow> 's js_outcome" where
  "filter_restore ops f s =
     (if \<not> f_def f then (s, Some (NsException ''only default filters can be restored!''))
      else (filter_reset ops f s, None))"

definition filter_remove :: "'s store_ops \<Rightarrow> dta_filter \<Rightarrow> 's \<Rightarrow> 's js_outcome" where
  "filter_remove ops f s =
     (if f_def f then (s, Some (NsException ''default filters cannot be deleted!''))
      else (filter_reset ops f s, None))"

section \<open>Debug strings\<close>

text \<open>
  \<open>toString\<close> (lines 207--209) and \<open>toSource\<close> (lines 211--213).  A
  \<open>RegExp\<close>'s \<open>toSource\<close> is \<open>/source/flags\<close>, an array's the sources of
  its members between brackets, separated by \<open>, \<close>; \<open>this._regs.toSource()\<close>
  throws a \<open>TypeError\<close> while \<open>_regs\<close> is \<open>undefined\<close>.  A filter that never had a
  label has the empty label here (the code prints \<open>undefined\<close>).
\<close>

definition filter_to_string :: "dta_filter \<Rightarrow> string" where
  "filter_to_string f = f_label f @ '' ('' @ f_name f @ '')''"

definition re_to_source :: "matcher \<Rightarrow> string" where
  "re_to_source m = CHR ''/'' # re_source m @ CHR ''/'' # (if re_ignore_case m then ''i'' else [])"

fun js_join_str :: "string \<Rightarrow> string list \<Rightarrow> string" where
  "js_join_str d [] = []"
| "js_join_str d [p] = p"
| "js_join_str d (p # q # ps) = p @ d @ js_join_str d (q # ps)"

definition filter_to_source :: "dta_filter \<Rightarrow> js_exn + string" where
  "filter_to_source f =
     (case f_regs f of
        None \<Rightarrow> Inl TypeError
      | Some rs \<Rightarrow> Inr (filter_to_string f @ '': ['' @ js_join_str '', '' (map re_to_source rs) @ '']''))"

text \<open>
  The invariant a filter keeps: the regular expressions are those its
  expression compiles to (as far as compilation got), and neither is
  assigned without the other.
\<close>

definition regs_consistent :: "regexp_rt \<Rightarrow> dta_filter \<Rightarrow> bool" where
  "regs_consistent rt f \<longleftrightarrow>
     (case f_expr f of None \<Rightarrow> f_regs f = None | Some e \<Rightarrow> f_regs f = Some (fst (make_regs rt e [])))"

section \<open>Properties of a filter\<close>

text \<open>
  On a consistent filter \<open>toSource\<close> throws exactly when the expression was
  never assigned, and otherwise lists what the expression compiles to.
\<close>

lemma to_source_consistent:
  assumes "regs_consistent rt f"
  shows "filter_to_source f =
           (case f_expr f of
              None \<Rightarrow> Inl TypeError
            | Some e \<Rightarrow> Inr (filter_to_string f @ '': ['' @
                          js_join_str '', '' (map re_to_source (fst (make_regs rt e []))) @ '']''))"
  using assms by (cases "f_expr f") (simp_all add: regs_consistent_def filter_to_source_def)

text \<open>C18: the setters of label, active and type store the value and set the dirty flag exactly when the value changes.\<close>

theorem setters_mark_dirty:
  "set_label v f = f\<lparr>f_label := v, f_modified := (f_modified f \<or> f_label f \<noteq> v)\<rparr> \<and>
   set_active b f = f\<lparr>f_active := b, f_modified := (f_modified f \<or> f_active f \<noteq> b)\<rparr> \<and>
   set_type t f = f\<lparr>f_type := t, f_modified := (f_modified f \<or> f_type f \<noteq> t)\<rparr>"
  by (auto simp: set_label_def set_active_def set_type_def)

lemma set_expression_cases:
  "set_expression rt v f =
    (if f_expr f = Some v then (f, None)
     else (f\<lparr>f_expr := Some v, f_regs := Some (fst (make_regs rt v [])),
             f_modified := (f_modified f \<or> snd (make_regs rt v []) = None)\<rparr>, snd (make_regs rt v [])))"
  by (auto simp: set_expression_def Let_def split: prod.split)

lemma set_expression_keeps_consistent:
  "regs_consistent rt f \<Longrightarrow> regs_consistent rt (fst (set_expression rt v f))"
  by (auto simp: set_expression_cases regs_consistent_def)

text \<open>C19: a new expression that fails to compile is stored anyway, with the regular expressions compiled before the failure, and the filter is not marked dirty; the exception propagates.\<close>

theorem set_expression_failure:
  assumes "f_expr f \<noteq> Some v" and "snd (make_regs rt v []) = Some e"
  shows "set_expression rt v f =
           (f\<lparr>f_expr := Some v, f_regs := Some (fst (make_regs rt v []))\<rparr>, Some e)"
  using assms by (simp add: set_expression_cases)

lemma load_expression_raises:
  "snd (load_expression rt v f) \<in> {None, Some SyntaxError, Some TypeError}"
  by (auto simp: load_expression_def set_expression_cases split: option.split pval.split
      dest: make_regs_raises_SyntaxError)

lemma load_expression_not_ns: "load_expression rt v f \<noteq> (g, Some (NsException m))"
  using load_expression_raises [of rt v f] by auto

text \<open>C20: \<open>load\<close> throws \<open>Empty filter!\<close> exactly when the stored label is missing, not a string, or empty.\<close>

theorem filter_load_empty_label:
  "snd (filter_load rt p loc f) = Some (NsException ''Empty filter!'') \<longleftrightarrow>
   \<not> (\<exists>l. pref_get p (filter_pref f ''label'') = Some (PStr l) \<and> l \<noteq> [])"
proof (cases "\<exists>l. pref_get p (filter_pref f ''label'') = Some (PStr l) \<and> l \<noteq> []")
  case True
  then obtain l where l: "pref_get p (filter_pref f ''label'') = Some (PStr l)" "l \<noteq> []" by blast
  have "snd (filter_load rt p loc f) \<noteq> Some (NsException ''Empty filter!'')"
    using l load_expression_not_ns by (auto simp: filter_load_def Let_def split: prod.split)
  with True show ?thesis by auto
next
  case False
  show ?thesis
  proof (cases "pref_get p (filter_pref f ''label'')")
    case None
    then show ?thesis by (simp add: filter_load_def)
  next
    case (Some v)
    with False show ?thesis by (cases v) (auto simp: filter_load_def)
  qed
qed

lemma filter_load_ok:
  assumes "pref_get p (filter_pref f ''label'') = Some (PStr l)" and "l \<noteq> []"
    and "pref_get p (filter_pref f ''test'') = Some (PStr t)" and "snd (make_regs rt t []) = None"
    and "f_expr f = None"
  shows "filter_load rt p loc f =
    (f\<lparr>f_localized := loc,
       f_label := (case loc of Some ll \<Rightarrow>
                    if ll \<noteq> [] \<and> \<not> pref_has_user p (filter_pref f ''label'') then ll else l
                  | None \<Rightarrow> l),
       f_active := js_truthy (pref_get p (filter_pref f ''active'')),
       f_type := js_to_int32 (pref_get p (filter_pref f ''type'')),
       f_def := js_contains (f_name f) ''deffilter'',
       f_expr := Some t, f_regs := Some (fst (make_regs rt t [])), f_modified := False\<rparr>, None)"
  using assms
  by (simp add: filter_load_def load_expression_def set_expression_cases Let_def)

text \<open>C21: saving a dirty filter writes active, test and type and then, last, the label, and clears the dirty flag.\<close>

theorem filter_save_order:
  assumes "f_modified f" and "f_expr f = Some e"
  shows "filter_save ops f s =
    ((so_set ops (filter_pref f ''label'') (PStr (f_label f))
       (so_set ops (filter_pref f ''type'') (PInt (f_type f))
         (so_set ops (filter_pref f ''test'') (PStr e)
           (so_set ops (filter_pref f ''active'') (PBool (f_active f)) s))),
      f\<lparr>f_modified := False\<rparr>), None)"
  using assms by (simp add: filter_save_def save_writes_def)

text \<open>C22: saving a dirty filter whose expression was never assigned writes only \<open>active\<close> and then throws \<open>TypeError\<close>, leaving the filter dirty.\<close>

theorem filter_save_undefined_expression:
  assumes "f_modified f" and "f_expr f = None"
  shows "filter_save ops f s =
    ((so_set ops (filter_pref f ''active'') (PBool (f_active f)) s, f), Some TypeError)"
  using assms by (simp add: filter_save_def save_writes_def)

text \<open>C23: \<open>restore\<close> refuses exactly the non-default filters and \<open>remove\<close> exactly the default ones, with the source's messages.\<close>

theorem restore_remove_guards:
  "(snd (filter_restore ops f s) = Some (NsException ''only default filters can be restored!'') \<longleftrightarrow> \<not> f_def f) \<and>
   (snd (filter_remove ops f s) = Some (NsException ''default filters cannot be deleted!'') \<longleftrightarrow> f_def f)"
  by (simp add: filter_restore_def filter_remove_def)

lemma filter_pref_new [simp]: "filter_pref (new_filter n) s = n @ CHR ''.'' # s"
  and f_name_new [simp]: "f_name (new_filter n) = n" and f_expr_new [simp]: "f_expr (new_filter n) = None"
  by (simp_all add: filter_pref_def new_filter_def)

text \<open>C9: saving a dirty filter with a non-empty label and an expression that compiles, then loading the same id from the store, gives back its label, active flag, type and expression, compiled, and a clean filter.\<close>

theorem save_load_roundtrip:
  assumes "f_modified f" and "f_label f \<noteq> []" and "f_expr f = Some e"
    and "snd (make_regs rt e []) = None"
  shows "let p' = fst (fst (filter_save plain_store f p));
             (g, err) = filter_load rt p' loc (new_filter (f_name f))
         in err = None \<and> f_label g = f_label f \<and> f_active g = f_active f \<and> f_type g = f_type f \<and>
            f_expr g = f_expr f \<and> f_regs g = Some (fst (make_regs rt e [])) \<and> \<not> f_modified g"
proof -
  let ?p' = "fst (fst (filter_save plain_store f p))"
  have p': "?p' = pref_set (filter_pref f ''label'') (PStr (f_label f))
       (pref_set (filter_pref f ''type'') (PInt (f_type f))
         (pref_set (filter_pref f ''test'') (PStr e)
           (pref_set (filter_pref f ''active'') (PBool (f_active f)) p)))"
    using assms(1,3) by (simp add: filter_save_def save_writes_def plain_store_def)
  have keys: "filter_pref f ''label'' \<noteq> filter_pref f ''type''" "filter_pref f ''label'' \<noteq> filter_pref f ''test''"
    "filter_pref f ''label'' \<noteq> filter_pref f ''active''" "filter_pref f ''type'' \<noteq> filter_pref f ''test''"
    "filter_pref f ''type'' \<noteq> filter_pref f ''active''" "filter_pref f ''test'' \<noteq> filter_pref f ''active''"
    by (simp_all add: filter_pref_def)
  have "filter_load rt ?p' loc (new_filter (f_name f)) =
    ((new_filter (f_name f))\<lparr>f_localized := loc, f_label := f_label f,
       f_active := f_active f, f_type := f_type f,
       f_def := js_contains (f_name f) ''deffilter'',
       f_expr := Some e, f_regs := Some (fst (make_regs rt e [])), f_modified := False\<rparr>, None)"
    using keys assms(2,4) by (subst filter_load_ok [where l = "f_label f" and t = e])
      (simp_all add: p' filter_pref_def split: option.split)
  then show ?thesis using assms(3) by (simp add: new_filter_def)
qed

text \<open>C17: the setters and \<open>save\<close> keep a filter's regular expressions equal to the compilation of its expression.\<close>

theorem regs_consistent_preserved:
  assumes "regs_consistent rt f"
  shows "regs_consistent rt (set_label v f) \<and> regs_consistent rt (set_active b f) \<and>
         regs_consistent rt (set_type t f) \<and> regs_consistent rt (fst (set_expression rt x f)) \<and>
         regs_consistent rt (snd (fst (filter_save ops f s)))"
  using assms set_expression_keeps_consistent [OF assms]
  by (auto simp: set_label_def set_active_def set_type_def regs_consistent_def filter_save_def
      split: prod.split option.split)

lemma filter_load_consistent:
  "filter_load rt p loc (new_filter n) = (g, None) \<Longrightarrow> regs_consistent rt g"
  by (auto simp: filter_load_def load_expression_def set_expression_cases regs_consistent_def
      new_filter_def Let_def split: option.splits pval.splits if_splits prod.splits)

lemma filter_match_consistent:
  "regs_consistent rt f \<Longrightarrow> f_expr f = Some e \<Longrightarrow> str \<noteq> [] \<Longrightarrow>
   filter_match rt f str =
     Inr (\<exists>m\<in>set (fst (make_regs rt e [])). rt_search rt (re_source m) (re_ignore_case m) str)"
  by (simp add: filter_match_def regs_consistent_def list_ex_iff)

text \<open>C24: a filter with the expression \<open>a,b\<close> matches a string exactly when a filter with \<open>a\<close> or a filter with \<open>b\<close> matches it.\<close>

theorem filter_match_comma:
  assumes "explicit_attempt rt (js_trim (a @ CHR '','' # b)) = None"
    and "CHR '','' \<notin> set a" and "CHR '','' \<notin> set b" and "snd (make_regs rt a []) = None"
    and "regs_consistent rt f" and "f_expr f = Some (a @ CHR '','' # b)"
    and "regs_consistent rt fa" and "f_expr fa = Some a"
    and "regs_consistent rt fb" and "f_expr fb = Some b"
    and "filter_match rt fa str = Inr x" and "filter_match rt fb str = Inr y"
  shows "filter_match rt f str = Inr (x \<or> y)"
proof (cases "str = []")
  case True
  with assms(11,12) show ?thesis by (simp add: filter_match_def)
next
  case False
  obtain ra where ra: "make_regs rt a [] = (ra, None)" using assms(4) by (cases "make_regs rt a []") auto
  have "make_regs rt (a @ CHR '','' # b) [] = make_regs rt b ra"
    using make_regs_comma [OF assms(1-3), of "[]"] ra by simp
  then have "fst (make_regs rt (a @ CHR '','' # b) []) = ra @ fst (make_regs rt b [])"
    using make_regs_acc [of rt b ra] by simp
  then show ?thesis
    using False assms(5-12) ra filter_match_consistent [of rt] by auto
qed

text \<open>C25: \<open>remove\<close> resets every user value whose key starts with the filter's branch name, also the keys of another filter whose id extends this one (the branch has no trailing dot).\<close>

theorem remove_resets_prefix_branch:
  assumes "\<not> f_def f" and "js_starts_with k (f_name f)"
  shows "filter_remove plain_store f p = (pref_reset_branch (f_name f) p, None) \<and>
         pref_get (fst (filter_remove plain_store f p)) k = map_of (pr_default p) k \<and>
         \<not> pref_has_user (fst (filter_remove plain_store f p)) k"
  using assms by (simp add: filter_remove_def filter_reset_def plain_store_def)

text \<open>
  Any property of the store that every single write keeps holds after a
  save, a restore and a removal: the client side of the \<open>store_ops\<close>
  interface, which the system model discharges for its observed store.
\<close>

lemma apply_writes_preserves:
  assumes "\<And>k v s. P s \<Longrightarrow> P (so_set ops k v s)" and "P s"
  shows "P (fst (apply_writes ops ws s))"
  using assms(2)
proof (induction ws arbitrary: s)
  case (Cons w ws)
  then show ?case by (cases w; cases "snd w") (simp_all add: assms(1))
qed simp

lemma filter_save_preserves:
  assumes "\<And>k v s. P s \<Longrightarrow> P (so_set ops k v s)" and "P s"
  shows "P (fst (fst (filter_save ops f s)))"
  using apply_writes_preserves [of P ops s "save_writes f", OF assms]
  by (cases "apply_writes ops (save_writes f) s") (auto simp: filter_save_def assms(2) split: option.split)

lemma filter_save_object:
  "snd (fst (filter_save ops f s)) = f \<or> snd (fst (filter_save ops f s)) = f\<lparr>f_modified := False\<rparr>"
  by (auto simp: filter_save_def split: prod.split option.split)

lemma filter_reset_preserves:
  assumes "\<And>b s. P s \<Longrightarrow> P (so_reset ops b s)" and "P s"
  shows "P (fst (filter_restore ops f s)) \<and> P (fst (filter_remove ops f s))"
  using assms by (simp add: filter_restore_def filter_remove_def filter_reset_def)

lemma setters_keep_name [simp]:
  "f_name (set_label v f) = f_name f" "f_name (set_active b f) = f_name f" "f_name (set_type t f) = f_name f"
  "f_name (fst (set_expression rt x f)) = f_name f"
  by (simp_all add: set_label_def set_active_def set_type_def set_expression_cases)

lemma regs_consistent_modified [simp]: "regs_consistent rt (f\<lparr>f_modified := m\<rparr>) = regs_consistent rt f"
  by (simp add: regs_consistent_def split: option.split)

lemma setters_consistent [simp]:
  "regs_consistent rt (set_label v f) = regs_consistent rt f"
  "regs_consistent rt (set_active b f) = regs_consistent rt f"
  "regs_consistent rt (set_type t f) = regs_consistent rt f"
  by (simp_all add: set_label_def set_active_def set_type_def regs_consistent_def split: option.split)

lemma filter_load_name [simp]: "f_name (fst (filter_load rt p loc f)) = f_name f"
  by (auto simp: filter_load_def load_expression_def set_expression_cases Let_def
      split: option.splits pval.splits prod.splits)

text \<open>C27: a filter whose \<open>test\<close> key is missing loads without an exception (the expression setter sees \<open>undefined == undefined\<close> and does nothing), and then \<open>match\<close> throws \<open>TypeError\<close> for every non-empty string, since \<open>_regs\<close> was never assigned.\<close>

theorem untested_filter_match_throws:
  assumes "pref_get p (n @ CHR ''.'' # ''label'') = Some (PStr l)" and "l \<noteq> []"
    and "pref_get p (n @ CHR ''.'' # ''test'') = None" and "x \<noteq> []"
  shows "snd (filter_load rt p loc (new_filter n)) = None \<and>
         filter_match rt (fst (filter_load rt p loc (new_filter n))) x = Inl TypeError"
  using assms
  by (simp add: filter_load_def load_expression_def filter_match_def Let_def new_filter_def filter_pref_def)


end
