(* ===== verification/FilterManager.thy ===== *)
theory FilterManager
  imports DtaFilter "HOL-Library.Sublist"
begin

unbundle bit_operations_syntax

text \<open>
  The filter manager (\<open>FilterManager\<close>, filterManager.js lines 248--460) and
  its enumerator (lines 223--246), with the whole system state it acts on: the
  preference store, a heap of filter objects (the manager's \<open>_filters\<close>,
  \<open>_all\<close> and \<open>_active\<close> hold references, as the clients' enumerators do),
  the armed one-shot timers and the number of \<open>DTA:filterschanged\<close>
  notifications sent.  A store write notifies the manager synchronously, as a
  preference observer on \<open>BASE\<close> is: \<open>sys_store\<close> is the \<open>store_ops\<close> every
  save and reset of the system goes through.
\<close>

record fm =
  fm_inited :: bool
  fm_observing :: bool
  fm_must_reload :: bool
  fm_timers :: nat
  fm_loaded :: bool
  fm_filters :: "string \<Rightarrow> nat option"
  fm_all :: "nat list"
  fm_active :: "nat list"
  fm_count :: nat
  fm_labels :: "string \<Rightarrow> string option"

record sys =
  s_prefs :: prefs
  s_heap :: "nat \<Rightarrow> dta_filter option"
  s_next :: nat
  s_fm :: fm
  s_notified :: nat

definition LINK_FILTER :: "32 word" where "LINK_FILTER = 1"
definition IMAGE_FILTER :: "32 word" where "IMAGE_FILTER = 2"

section \<open>Debounced reload\<close>

text \<open>\<open>_delayedReload\<close> (lines 280--286): arm a 100 ms one-shot timer unless a reload is pending.\<close>

definition delayed_reload :: "fm \<Rightarrow> fm" where
  "delayed_reload m =
     (if fm_must_reload m then m else m\<lparr>fm_must_reload := True, fm_timers := Suc (fm_timers m)\<rparr>)"

text \<open>
  The observer: a change of a key under \<open>BASE\<close> calls \<open>observe\<close> with the
  \<open>nsPref:changed\<close> topic, which is not \<open>timer-callback\<close>, hence
  \<open>_delayedReload\<close> (lines 439--446).  The observer exists from \<open>init\<close> on,
  if \<open>register\<close> managed to add it (\<open>fm_observing\<close>).
\<close>

definition notify_change :: "prefs \<Rightarrow> prefs \<Rightarrow> string \<Rightarrow> fm \<Rightarrow> fm" where
  "notify_change p p' k m =
     (if fm_observing m \<and> js_starts_with k BASE \<and> pref_get p k \<noteq> pref_get p' k then delayed_reload m else m)"

definition sys_set :: "string \<Rightarrow> pval \<Rightarrow> sys \<Rightarrow> sys" where
  "sys_set k v s =
     (let p' = pref_set k v (s_prefs s) in s\<lparr>s_prefs := p', s_fm := notify_change (s_prefs s) p' k (s_fm s)\<rparr>)"

definition sys_reset :: "string \<Rightarrow> sys \<Rightarrow> sys" where
  "sys_reset b s =
     (let p = s_prefs s; p' = pref_reset_branch b p;
          m = s_fm s;
          changed = list_ex (\<lambda>k. js_starts_with k BASE \<and> pref_get p k \<noteq> pref_get p' k) (map fst (pr_user p))
      in s\<lparr>s_prefs := p', s_fm := (if fm_observing m \<and> changed then delayed_reload m else m)\<rparr>)"

definition sys_store :: "sys store_ops" where
  "sys_store = \<lparr>so_set = sys_set, so_reset = sys_reset\<rparr>"

section \<open>Reload\<close>

text \<open>The sort comparator of \<open>reload\<close> (lines 329--346).\<close>

definition filter_cmp :: "dta_filter \<Rightarrow> dta_filter \<Rightarrow> int" where
  "filter_cmp a b =
     (if f_def a \<and> \<not> f_def b then -1
      else if \<not> f_def a \<and> f_def b then 1
      else if f_def a then (if filter_id a < filter_id b then -1 else 1)
      else (let i = js_lower (f_label a); ii = js_lower (f_label b) in
            if i < ii then -1 else if ii < i then 1 else 0))"

text \<open>
  The loop of \<open>reload\<close> (lines 303--325) over the keys \<open>getChildren(BASE)\<close>
  lists: a key ending in \<open>.label\<close> names a filter; it is loaded with the
  localized label of its id, if any, and kept (at a fresh address) when
  \<open>load\<close> does not throw.  (The lookup \<open>localizedTag in this._localizedLabels\<close>
  is read on the object's own keys; ids are UUIDs or \<open>deffilter-*\<close>, never
  names of \<open>Object.prototype\<close> members.)
\<close>

fun reload_loop ::
    "regexp_rt \<Rightarrow> prefs \<Rightarrow> (string \<Rightarrow> string option) \<Rightarrow> string list \<Rightarrow> nat
     \<Rightarrow> (nat \<times> dta_filter) list \<Rightarrow> (nat \<times> dta_filter) list" where
  "reload_loop rt p labels [] n acc = acc"
| "reload_loop rt p labels (k # ks) n acc =
     (if \<not> js_ends_with k ''.label'' then reload_loop rt p labels ks n acc
      else
        (let f0 = new_filter (take (length k - 6) k);
             (f, e) = filter_load rt p (labels (filter_id f0)) f0
         in if e = None then reload_loop rt p labels ks (Suc n) (acc @ [(n, f)])
            else reload_loop rt p labels ks n acc))"

text \<open>
  \<open>reload\<close> (lines 292--356): nothing unless a reload is pending; otherwise
  the loaded filters, sorted, become \<open>_all\<close>, the active ones \<open>_active\<close>, and
  the observers are notified once.
\<close>

definition fm_reload :: "regexp_rt \<Rightarrow> sys \<Rightarrow> sys" where
  "fm_reload rt s =
     (let m = s_fm s in
      if \<not> fm_must_reload m then s
      else
        (let loaded = reload_loop rt (s_prefs s) (fm_labels m) (pref_children BASE (s_prefs s)) (s_next s) [];
             sorted = js_sort (\<lambda>x y. filter_cmp (snd x) (snd y)) loaded
         in s\<lparr>s_heap := s_heap s ++ map_of loaded,
              s_next := s_next s + length loaded,
              s_fm := m\<lparr>fm_must_reload := False, fm_loaded := True,
                        fm_filters := map_of (map (\<lambda>(a, f). (filter_id f, a)) (rev loaded)),
                        fm_all := map fst sorted,
                        fm_active := map fst (filter (\<lambda>x. f_active (snd x)) sorted),
                        fm_count := length loaded\<rparr>,
              s_notified := Suc (s_notified s)\<rparr>))"

section \<open>Queries\<close>

text \<open>
  \<open>id in this._filters\<close> also holds for the members \<open>this._filters\<close>
  inherits from \<open>Object.prototype\<close>; \<open>getFilter\<close> then returns that member.
\<close>

definition js_proto_keys :: "string list" where
  "js_proto_keys =
     [''constructor'', ''toString'', ''toSource'', ''toLocaleString'', ''valueOf'', ''watch'',
      ''unwatch'', ''hasOwnProperty'', ''isPrototypeOf'', ''propertyIsEnumerable'',
      ''__defineGetter__'', ''__defineSetter__'', ''__lookupGetter__'', ''__lookupSetter__'', ''__proto__'']"

datatype fref = FilterRef nat | ProtoMember string

text \<open>\<open>getFilter(id)\<close> (lines 371--376); before the first reload \<open>_filters\<close> is \<open>undefined\<close>.\<close>

definition fm_get_filter :: "sys \<Rightarrow> string \<Rightarrow> js_exn + fref" where
  "fm_get_filter s i =
     (let m = s_fm s in
      if \<not> fm_loaded m then Inl TypeError
      else case fm_filters m i of
        Some a \<Rightarrow> Inr (FilterRef a)
      | None \<Rightarrow> if i \<in> set js_proto_keys then Inr (ProtoMember i)
                else Inl (NsException (''invalid filter specified: '' @ i)))"

text \<open>
  \<open>matchActive(test, type)\<close> (lines 378--380): \<open>some\<close> stops at the first
  filter whose category intersects \<open>type\<close> and that matches; an exception of
  \<open>match\<close> propagates.
\<close>

fun match_active_loop :: "regexp_rt \<Rightarrow> (nat \<Rightarrow> dta_filter option) \<Rightarrow> string \<Rightarrow> 32 word \<Rightarrow> nat list \<Rightarrow> js_exn + bool" where
  "match_active_loop rt h test ty [] = Inr False"
| "match_active_loop rt h test ty (a # as) =
     (case h a of
        None \<Rightarrow> Inl TypeError
      | Some f \<Rightarrow>
          if f_type f AND ty = 0 then match_active_loop rt h test ty as
          else (case filter_match rt f test of
                  Inl e \<Rightarrow> Inl e
                | Inr b \<Rightarrow> if b then Inr True else match_active_loop rt h test ty as))"

definition fm_match_active :: "regexp_rt \<Rightarrow> sys \<Rightarrow> string \<Rightarrow> 32 word \<Rightarrow> js_exn + bool" where
  "fm_match_active rt s test ty =
     (if \<not> fm_loaded (s_fm s) then Inl TypeError
      else match_active_loop rt (s_heap s) test ty (fm_active (s_fm s)))"

text \<open>The enumerator (lines 223--246) over a snapshot of references.\<close>

record fenum =
  fe_filters :: "nat list option"
  fe_idx :: nat

definition fe_has_more :: "fenum \<Rightarrow> js_exn + bool" where
  "fe_has_more e = (case fe_filters e of None \<Rightarrow> Inl TypeError | Some fs \<Rightarrow> Inr (fe_idx e < length fs))"

definition fe_get_next :: "fenum \<Rightarrow> fenum \<times> (js_exn + nat)" where
  "fe_get_next e =
     (case fe_filters e of
        None \<Rightarrow> (e, Inl TypeError)
      | Some fs \<Rightarrow> if fe_idx e < length fs then (e\<lparr>fe_idx := Suc (fe_idx e)\<rparr>, Inr (fs ! fe_idx e))
                   else (e, Inl NS_ERROR_FAILURE))"

text \<open>\<open>QueryInterface\<close> of the enumerator (lines 227--236).\<close>

datatype iid = IID_nsISupports | IID_nsISimpleEnumerator | IID_other string

definition fe_query_interface :: "iid \<Rightarrow> fenum \<Rightarrow> js_exn + fenum" where
  "fe_query_interface i e =
     (if i = IID_nsISupports \<or> i = IID_nsISimpleEnumerator then Inr e else Inl NS_ERROR_NO_INTERFACE)"

definition fm_enum_all :: "sys \<Rightarrow> fenum" where
  "fm_enum_all s = \<lparr>fe_filters = (if fm_loaded (s_fm s) then Some (fm_all (s_fm s)) else None), fe_idx = 0\<rparr>"

definition fm_enum_active :: "sys \<Rightarrow> 32 word \<Rightarrow> js_exn + fenum" where
  "fm_enum_active s ty =
     (if \<not> fm_loaded (s_fm s) then Inl TypeError
      else Inr \<lparr>fe_filters = Some (filter (\<lambda>a. case s_heap s a of None \<Rightarrow> False
                                                 | Some f \<Rightarrow> f_type f AND ty \<noteq> 0) (fm_active (s_fm s))),
                fe_idx = 0\<rparr>)"

section \<open>Operations\<close>

text \<open>
  \<open>create(label, expression, active, type)\<close> (lines 382--405) with the UUID
  the generator returned: the expression is compiled before anything is
  written; the save's writes notify the manager, which reloads later.
\<close>

definition fm_create ::
    "regexp_rt \<Rightarrow> string \<Rightarrow> string \<Rightarrow> string \<Rightarrow> bool \<Rightarrow> 32 word \<Rightarrow> sys \<Rightarrow> sys \<times> (js_exn + string)" where
  "fm_create rt uuid label expr active ty s =
     (let f0 = (new_filter (BASE @ uuid))\<lparr>f_label := label, f_active := active, f_type := ty,
                                         f_modified := True\<rparr>;
          (f1, e) = set_expression rt expr f0
      in case e of
           Some x \<Rightarrow> (s, Inl x)
         | None \<Rightarrow> (case filter_save sys_store f1 s of
                     ((s', f2), None) \<Rightarrow> (s', Inr (filter_id f2))
                   | ((s', f2), Some x) \<Rightarrow> (s', Inl x)))"

text \<open>
  \<open>remove(id)\<close> (lines 407--413): an inherited member of \<open>_filters\<close> has no
  \<open>remove\<close> method, so calling it is a \<open>TypeError\<close>.
\<close>

definition fm_remove :: "sys \<Rightarrow> string \<Rightarrow> sys \<times> (js_exn + unit)" where
  "fm_remove s i =
     (if \<not> fm_loaded (s_fm s) then (s, Inl TypeError)
      else case fm_filters (s_fm s) i of
        Some a \<Rightarrow> (case s_heap s a of
                    None \<Rightarrow> (s, Inl TypeError)
                  | Some f \<Rightarrow> (case filter_remove sys_store f s of
                                (s', None) \<Rightarrow> (s', Inr ())
                              | (s', Some x) \<Rightarrow> (s', Inl x)))
      | None \<Rightarrow> if i \<in> set js_proto_keys then (s, Inl TypeError)
                else (s, Inl (NsException ''filter not defined!'')))"

text \<open>\<open>save()\<close> (lines 415--424): every filter of \<open>_all\<close> saved, a failure logged and skipped.\<close>

fun save_loop :: "nat list \<Rightarrow> sys \<Rightarrow> sys" where
  "save_loop [] s = s"
| "save_loop (a # as) s =
     (case s_heap s a of
        None \<Rightarrow> save_loop as s
      | Some f \<Rightarrow> (case filter_save sys_store f s of
                    ((s', f'), _) \<Rightarrow> save_loop as (s'\<lparr>s_heap := (s_heap s')(a \<mapsto> f')\<rparr>)))"

definition fm_save_all :: "sys \<Rightarrow> sys" where
  "fm_save_all s = save_loop (fm_all (s_fm s)) s"

text \<open>\<open>getTmpFromString(expression)\<close> (lines 426--436).\<close>

definition fm_get_tmp :: "regexp_rt \<Rightarrow> string \<Rightarrow> js_exn + dta_filter" where
  "fm_get_tmp rt expr =
     (if expr = [] then Inl NS_ERROR_INVALID_ARG
      else
        (let f0 = (new_filter ''temp'')\<lparr>f_active := True, f_type := LINK_FILTER OR IMAGE_FILTER,
                                        f_modified := False\<rparr>;
             (f, e) = set_expression rt expr f0
         in case e of None \<Rightarrow> Inr f | Some x \<Rightarrow> Inl x))"

text \<open>
  \<open>init()\<close> (lines 256--278) with the localized labels of the string bundle
  and the outcome of \<open>Preferences.addObserver\<close> in \<open>register()\<close> (lines
  449--459), which catches a failure and returns \<open>false\<close>, a result \<open>init\<close>
  ignores: a reload is scheduled either way, and \<open>init\<close> becomes a no-op.
  A timer firing is \<open>observe(.., 'timer-callback')\<close>, hence \<open>reload\<close>.
\<close>

definition fm_register :: "bool \<Rightarrow> fm \<Rightarrow> fm \<times> bool" where
  "fm_register added m = (m\<lparr>fm_observing := added\<rparr>, added)"

definition fm_init :: "(string \<Rightarrow> string option) \<Rightarrow> bool \<Rightarrow> sys \<Rightarrow> sys" where
  "fm_init labels added s =
     (if fm_inited (s_fm s) then s
      else (let m = fst (fm_register added ((s_fm s)\<lparr>fm_labels := labels\<rparr>))
            in s\<lparr>s_fm := (delayed_reload m)\<lparr>fm_inited := True\<rparr>\<rparr>))"

definition fm_timer_fire :: "regexp_rt \<Rightarrow> sys \<Rightarrow> sys" where
  "fm_timer_fire rt s =
     (if fm_timers (s_fm s) = 0 then s
      else fm_reload rt (s\<lparr>s_fm := (s_fm s)\<lparr>fm_timers := fm_timers (s_fm s) - 1\<rparr>\<rparr>))"

section \<open>The system\<close>

text \<open>
  What can happen next: the host initialises the manager, anyone writes or
  resets preferences, an armed timer fires, a client calls the manager, or a
  client acts on a filter object it holds (from \<open>getFilter\<close> or an enumerator).
\<close>

datatype event =
    EvInit "string \<Rightarrow> string option" bool
  | EvPrefSet string pval
  | EvPrefReset string
  | EvTimer
  | EvReload
  | EvCreate string string string bool "32 word"
  | EvRemove string
  | EvSaveAll
  | EvSetLabel nat string
  | EvSetActive nat bool
  | EvSetType nat "32 word"
  | EvSetExpression nat string
  | EvFilterSave nat
  | EvFilterRestore nat
  | EvFilterRemove nat

definition on_object :: "nat \<Rightarrow> (dta_filter \<Rightarrow> dta_filter) \<Rightarrow> sys \<Rightarrow> sys" where
  "on_object a g s = (case s_heap s a of None \<Rightarrow> s | Some f \<Rightarrow> s\<lparr>s_heap := (s_heap s)(a \<mapsto> g f)\<rparr>)"

fun sys_event :: "regexp_rt \<Rightarrow> sys \<Rightarrow> event \<Rightarrow> sys" where
  "sys_event rt s (EvInit l b) = fm_init l b s"
| "sys_event rt s (EvPrefSet k v) = sys_set k v s"
| "sys_event rt s (EvPrefReset b) = sys_reset b s"
| "sys_event rt s EvTimer = fm_timer_fire rt s"
| "sys_event rt s EvReload = fm_reload rt s"
| "sys_event rt s (EvCreate u l e a t) = fst (fm_create rt u l e a t s)"
| "sys_event rt s (EvRemove i) = fst (fm_remove s i)"
| "sys_event rt s EvSaveAll = fm_save_all s"
| "sys_event rt s (EvSetLabel a v) = on_object a (set_label v) s"
| "sys_event rt s (EvSetActive a v) = on_object a (set_active v) s"
| "sys_event rt s (EvSetType a v) = on_object a (set_type v) s"
| "sys_event rt s (EvSetExpression a v) = on_object a (\<lambda>f. fst (set_expression rt v f)) s"
| "sys_event rt s (EvFilterSave a) =
     (case s_heap s a of
        None \<Rightarrow> s
      | Some f \<Rightarrow> (case filter_save sys_store f s of ((s', f'), _) \<Rightarrow> s'\<lparr>s_heap := (s_heap s')(a \<mapsto> f')\<rparr>))"
| "sys_event rt s (EvFilterRestore a) =
     (case s_heap s a of None \<Rightarrow> s | Some f \<Rightarrow> fst (filter_restore sys_store f s))"
| "sys_event rt s (EvFilterRemove a) =
     (case s_heap s a of None \<Rightarrow> s | Some f \<Rightarrow> fst (filter_remove sys_store f s))"

definition run :: "regexp_rt \<Rightarrow> sys \<Rightarrow> event list \<Rightarrow> sys" where
  "run rt s evs = foldl (sys_event rt) s evs"

definition sys0 :: "prefs \<Rightarrow> sys" where
  "sys0 p =
     \<lparr>s_prefs = p, s_heap = Map.empty, s_next = 0,
      s_fm = \<lparr>fm_inited = False, fm_observing = False, fm_must_reload = False, fm_timers = 0, fm_loaded = False,
              fm_filters = Map.empty, fm_all = [], fm_active = [], fm_count = 0,
              fm_labels = Map.empty\<rparr>,
      s_notified = 0\<rparr>"

inductive reachable :: "regexp_rt \<Rightarrow> sys \<Rightarrow> bool" for rt where
  start: "reachable rt (sys0 p)"
| step: "reachable rt s \<Longrightarrow> reachable rt (sys_event rt s ev)"

section \<open>Specification of the manager\<close>

text \<open>
  The order \<open>reload\<close> sorts by: default filters first, by id, then the
  others by lower-cased label.  The comparator is negative exactly when one
  key is below the other, so the sort is the library's stable \<open>sort_key\<close>.
\<close>

definition filter_key :: "dta_filter \<Rightarrow> bool \<times> string" where
  "filter_key f = (\<not> f_def f, if f_def f then filter_id f else js_lower (f_label f))"

text \<open>The filter one key of \<open>getChildren(BASE)\<close> yields, if \<open>reload\<close> keeps one for it.\<close>

definition load_key :: "regexp_rt \<Rightarrow> prefs \<Rightarrow> (string \<Rightarrow> string option) \<Rightarrow> string \<Rightarrow> dta_filter option" where
  "load_key rt p labels k =
     (if \<not> js_ends_with k ''.label'' then None
      else (let f0 = new_filter (take (length k - 6) k) in
            case filter_load rt p (labels (filter_id f0)) f0 of (f, None) \<Rightarrow> Some f | _ \<Rightarrow> None))"

definition loaded_filters :: "regexp_rt \<Rightarrow> sys \<Rightarrow> dta_filter list" where
  "loaded_filters rt s =
     List.map_filter (load_key rt (s_prefs s) (fm_labels (s_fm s))) (pref_children BASE (s_prefs s))"

text \<open>
  The invariant of the system: a pending reload has an armed timer; the
  manager's references point to live filter objects, each id to the filter
  of that id; \<open>_active\<close> is part of \<open>_all\<close>; addresses from \<open>s_next\<close> on
  are free; every filter's regular expressions are those of its expression.
\<close>

text \<open>A write or a branch reset of the store, as an event.\<close>

definition store_event :: "(string \<times> pval) + string \<Rightarrow> event" where
  "store_event w = (case w of Inl (k, v) \<Rightarrow> EvPrefSet k v | Inr b \<Rightarrow> EvPrefReset b)"

text \<open>A client calling \<open>getNext\<close> \<open>n\<close> times on an enumerator.\<close>

primrec fe_take :: "nat \<Rightarrow> fenum \<Rightarrow> fenum \<times> (js_exn + nat list)" where
  "fe_take 0 e = (e, Inr [])"
| "fe_take (Suc n) e =
     (case fe_get_next e of
        (e', Inl x) \<Rightarrow> (e', Inl x)
      | (e', Inr a) \<Rightarrow> (case fe_take n e' of (e'', r) \<Rightarrow> (e'', map_sum id (Cons a) r)))"

definition timer_ok :: "fm \<Rightarrow> bool" where
  "timer_ok m \<longleftrightarrow> (fm_must_reload m \<longrightarrow> 0 < fm_timers m)"

definition objects_ok :: "regexp_rt \<Rightarrow> sys \<Rightarrow> bool" where
  "objects_ok rt s \<longleftrightarrow>
     (\<forall>a. s_next s \<le> a \<longrightarrow> s_heap s a = None) \<and>
     (\<forall>a\<in>set (fm_all (s_fm s)). s_heap s a \<noteq> None) \<and>
     set (fm_active (s_fm s)) \<subseteq> set (fm_all (s_fm s)) \<and>
     (\<forall>i a. fm_filters (s_fm s) i = Some a \<longrightarrow> (\<exists>f. s_heap s a = Some f \<and> filter_id f = i)) \<and>
     (\<forall>a f. s_heap s a = Some f \<longrightarrow> regs_consistent rt f)"

definition sys_inv :: "regexp_rt \<Rightarrow> sys \<Rightarrow> bool" where
  "sys_inv rt s \<longleftrightarrow> timer_ok (s_fm s) \<and> objects_ok rt s"

text \<open>
  The manager's lists: \<open>_count\<close> is the length of \<open>_all\<close>, \<open>_all\<close> lists
  no filter object twice, and \<open>_active\<close> is a subsequence of \<open>_all\<close> (same
  relative order).
\<close>

definition fm_lists :: "fm \<Rightarrow> nat list \<times> nat list \<times> nat" where
  "fm_lists m = (fm_all m, fm_active m, fm_count m)"

definition lists_ok :: "fm \<Rightarrow> bool" where
  "lists_ok m \<longleftrightarrow> fm_count m = length (fm_all m) \<and> distinct (fm_all m) \<and> subseq (fm_active m) (fm_all m)"

section \<open>Properties of reload\<close>

lemma filter_cmp_neg: "filter_cmp a b < 0 \<longleftrightarrow> filter_key a < filter_key b"
  by (auto simp: filter_cmp_def filter_key_def Let_def)

text \<open>C3: the sort of \<open>reload\<close> (lines 329--346) is the stable sort by the key (not default, id for default filters, lower-cased label otherwise): defaults first by id, then the others by label, ties in load order.\<close>

theorem reload_sort_stable:
  "js_sort (\<lambda>x y. filter_cmp (snd x) (snd y)) xs = sort_key (\<lambda>x. filter_key (snd x)) xs"
  by (rule js_sort_sort_key) (simp add: filter_cmp_neg)

lemma reload_loop_step:
  "reload_loop rt p labels (k # ks) n acc =
     (case load_key rt p labels k of
        None \<Rightarrow> reload_loop rt p labels ks n acc
      | Some f \<Rightarrow> reload_loop rt p labels ks (Suc n) (acc @ [(n, f)]))"
proof -
  obtain f e where fe: "filter_load rt p (labels (filter_id (new_filter (take (length k - 6) k))))
                          (new_filter (take (length k - 6) k)) = (f, e)"
    by fastforce
  show ?thesis by (cases e) (simp_all add: load_key_def fe del: reload_loop.simps(1))
qed

lemma reload_loop_result:
  "reload_loop rt p labels ks n acc =
     acc @ zip [n..<n + length (List.map_filter (load_key rt p labels) ks)]
               (List.map_filter (load_key rt p labels) ks)"
proof (induction ks arbitrary: n acc)
  case Nil
  then show ?case by (simp add: map_filter_simps)
next
  case (Cons k ks)
  then show ?case
    by (simp add: zip_upt_Cons reload_loop_step map_filter_simps split: option.split del: reload_loop.simps upt_Suc)
qed

lemma fm_reload_pending:
  assumes "fm_must_reload (s_fm s)"
  shows "fm_reload rt s =
    (let L = loaded_filters rt s;
         loaded = zip [s_next s..<s_next s + length L] L;
         sorted = sort_key (\<lambda>x. filter_key (snd x)) loaded
     in s\<lparr>s_heap := s_heap s ++ map_of loaded,
          s_next := s_next s + length L,
          s_fm := (s_fm s)\<lparr>fm_must_reload := False, fm_loaded := True,
                    fm_filters := map_of (map (\<lambda>(a, f). (filter_id f, a)) (rev loaded)),
                    fm_all := map fst sorted,
                    fm_active := map fst (filter (\<lambda>x. f_active (snd x)) sorted),
                    fm_count := length L\<rparr>,
          s_notified := Suc (s_notified s)\<rparr>)"
proof -
  have srt: "js_sort (\<lambda>x y. filter_cmp (snd x) (snd y)) xs = sort_key (\<lambda>x. filter_key (snd x)) xs" for xs
    by (rule js_sort_sort_key) (simp add: filter_cmp_neg)
  show ?thesis
    using assms by (simp add: fm_reload_def reload_loop_result srt loaded_filters_def Let_def)
qed

text \<open>C2: a pending \<open>reload\<close> makes \<open>_all\<close> the filters that load without an exception, sorted by the key, \<open>_active\<close> exactly the active ones among them in that order, \<open>_count\<close> their number, clears the pending flag and notifies the observers once.\<close>

theorem reload_result:
  assumes "fm_must_reload (s_fm s)"
  shows "map (\<lambda>a. the (s_heap (fm_reload rt s) a)) (fm_all (s_fm (fm_reload rt s))) =
           sort_key filter_key (loaded_filters rt s) \<and>
         map (\<lambda>a. the (s_heap (fm_reload rt s) a)) (fm_active (s_fm (fm_reload rt s))) =
           filter f_active (sort_key filter_key (loaded_filters rt s)) \<and>
         fm_count (s_fm (fm_reload rt s)) = length (loaded_filters rt s) \<and>
         \<not> fm_must_reload (s_fm (fm_reload rt s)) \<and>
         s_notified (fm_reload rt s) = Suc (s_notified s)"
proof -
  let ?L = "loaded_filters rt s"
  let ?loaded = "zip [s_next s..<s_next s + length ?L] ?L"
  let ?sorted = "sort_key (\<lambda>x. filter_key (snd x)) ?loaded"
  have lk: "\<forall>x\<in>set ?sorted. (s_heap s ++ map_of ?loaded) (fst x) = Some (snd x)"
    by (auto intro: map_of_zip_upt)
  have sorted: "map snd ?sorted = sort_key filter_key ?L"
    by (simp add: map_snd_sort_key map_snd_zip)
  have "map (\<lambda>a. the ((s_heap s ++ map_of ?loaded) a)) (map fst ?sorted) = sort_key filter_key ?L"
    using map_the_lookup [OF lk] sorted by simp
  moreover have "map (\<lambda>a. the ((s_heap s ++ map_of ?loaded) a)) (map fst (filter (\<lambda>x. f_active (snd x)) ?sorted)) =
      filter f_active (sort_key filter_key ?L)"
  proof -
    have "\<forall>x\<in>set (filter (\<lambda>x. f_active (snd x)) ?sorted). (s_heap s ++ map_of ?loaded) (fst x) = Some (snd x)"
      using lk by simp
    note map_the_lookup [OF this]
    moreover have "map snd (filter (\<lambda>x. f_active (snd x)) ?sorted) = filter f_active (map snd ?sorted)"
      by (simp add: filter_map comp_def)
    ultimately show ?thesis by (simp only: sorted)
  qed
  ultimately show ?thesis using assms by (simp add: fm_reload_pending Let_def)
qed

section \<open>The invariant\<close>

lemma objects_ok_sched [simp]:
  "objects_ok rt (s\<lparr>s_prefs := p, s_fm := (s_fm s)\<lparr>fm_must_reload := b, fm_timers := t\<rparr>\<rparr>) = objects_ok rt s"
  "objects_ok rt (s\<lparr>s_prefs := p\<rparr>) = objects_ok rt s"
  "objects_ok rt (s\<lparr>s_fm := (s_fm s)\<lparr>fm_timers := t\<rparr>\<rparr>) = objects_ok rt s"
  "objects_ok rt (s\<lparr>s_fm := (s_fm s)\<lparr>fm_must_reload := b, fm_timers := t, fm_labels := l, fm_inited := i\<rparr>\<rparr>) = objects_ok rt s"
  by (simp_all add: objects_ok_def)

lemma sys_store_heap [simp]:
  "s_heap (sys_set k v s) = s_heap s" "s_heap (sys_reset b s) = s_heap s"
  by (simp_all add: sys_set_def sys_reset_def Let_def)

lemma sys_set_inv: "sys_inv rt s \<Longrightarrow> sys_inv rt (sys_set k v s)"
  by (simp add: sys_inv_def sys_set_def notify_change_def delayed_reload_def timer_ok_def Let_def)

lemma sys_reset_inv: "sys_inv rt s \<Longrightarrow> sys_inv rt (sys_reset b s)"
  by (simp add: sys_inv_def sys_reset_def delayed_reload_def timer_ok_def Let_def)

lemma sys_store_save_inv:
  assumes "sys_inv rt s"
  shows "sys_inv rt (fst (fst (filter_save sys_store f s))) \<and> s_heap (fst (fst (filter_save sys_store f s))) = s_heap s"
  by (rule filter_save_preserves [of "\<lambda>s'. sys_inv rt s' \<and> s_heap s' = s_heap s" sys_store])
    (simp_all add: sys_store_def sys_set_inv assms)

lemma sys_store_reset_inv:
  "sys_inv rt s \<Longrightarrow> sys_inv rt (fst (filter_restore sys_store f s)) \<and> sys_inv rt (fst (filter_remove sys_store f s))"
  using filter_reset_preserves [of "sys_inv rt" sys_store]
  by (simp add: sys_store_def sys_reset_inv)

lemma heap_update_inv:
  assumes "sys_inv rt s" and "s_heap s a = Some f" and "regs_consistent rt g" and "f_name g = f_name f"
  shows "sys_inv rt (s\<lparr>s_heap := (s_heap s)(a \<mapsto> g)\<rparr>)"
proof -
  have "a < s_next s" using assms(1,2) by (auto simp: sys_inv_def objects_ok_def not_le [symmetric])
  moreover have "\<forall>i a'. fm_filters (s_fm s) i = Some a' \<longrightarrow>
      (\<exists>f'. ((s_heap s)(a \<mapsto> g)) a' = Some f' \<and> filter_id f' = i)"
  proof (intro allI impI)
    fix i a' assume "fm_filters (s_fm s) i = Some a'"
    then obtain f' where "s_heap s a' = Some f'" "filter_id f' = i"
      using assms(1) unfolding sys_inv_def objects_ok_def by blast
    then show "\<exists>f'. ((s_heap s)(a \<mapsto> g)) a' = Some f' \<and> filter_id f' = i"
      using assms(2,4) by (cases "a' = a") (auto simp: filter_id_def)
  qed
  moreover have "\<forall>a'. s_next s \<le> a' \<longrightarrow> ((s_heap s)(a \<mapsto> g)) a' = None"
    and "\<forall>a'\<in>set (fm_all (s_fm s)). ((s_heap s)(a \<mapsto> g)) a' \<noteq> None"
    and "\<forall>a' f'. ((s_heap s)(a \<mapsto> g)) a' = Some f' \<longrightarrow> regs_consistent rt f'"
    using \<open>a < s_next s\<close> assms(1,3) by (auto simp: sys_inv_def objects_ok_def)
  ultimately show ?thesis using assms(1)
    by (simp add: sys_inv_def objects_ok_def del: fun_upd_apply)
qed

lemma load_key_Some:
  assumes "load_key rt p labels k = Some f"
  shows "js_ends_with k ''.label'' \<and>
         filter_load rt p (labels (filter_id (new_filter (take (length k - 6) k))))
           (new_filter (take (length k - 6) k)) = (f, None)"
proof -
  obtain g e where ge: "filter_load rt p (labels (filter_id (new_filter (take (length k - 6) k))))
                          (new_filter (take (length k - 6) k)) = (g, e)" by fastforce
  then show ?thesis using assms by (cases e) (auto simp: load_key_def split: if_splits)
qed

lemma loaded_filters_consistent: "f \<in> set (loaded_filters rt s) \<Longrightarrow> regs_consistent rt f"
  by (auto simp: loaded_filters_def in_set_map_filter dest!: load_key_Some intro: filter_load_consistent)

lemma reload_timer_ok: "timer_ok (s_fm (fm_reload rt s))"
  by (simp add: fm_reload_def timer_ok_def Let_def)

lemma reload_objects_ok:
  assumes "objects_ok rt s"
  shows "objects_ok rt (fm_reload rt s)"
proof (cases "fm_must_reload (s_fm s)")
  case False
  then show ?thesis using assms by (simp add: fm_reload_def)
next
  case True
  let ?L = "loaded_filters rt s"
  let ?n = "s_next s"
  let ?loaded = "zip [?n..<?n + length ?L] ?L"
  let ?h = "s_heap s ++ map_of ?loaded"
  have fresh: "\<forall>a. ?n + length ?L \<le> a \<longrightarrow> ?h a = None"
    using assms by (auto simp: objects_ok_def map_add_def map_of_eq_None_iff set_zip split: option.split)
  have all: "\<forall>x\<in>set ?loaded. ?h (fst x) = Some (snd x)"
    by (auto intro: map_of_zip_upt)
  have ids: "\<forall>i a. map_of (map (\<lambda>(a, f). (filter_id f, a)) (rev ?loaded)) i = Some a \<longrightarrow>
              (\<exists>f. ?h a = Some f \<and> filter_id f = i)"
  proof (intro allI impI)
    fix i a assume "map_of (map (\<lambda>(a, f). (filter_id f, a)) (rev ?loaded)) i = Some a"
    then have "(i, a) \<in> set (map (\<lambda>(a, f). (filter_id f, a)) (rev ?loaded))" by (rule map_of_SomeD)
    then obtain f where "(a, f) \<in> set ?loaded" "filter_id f = i" by auto
    with all show "\<exists>f. ?h a = Some f \<and> filter_id f = i" by fastforce
  qed
  have cons: "\<forall>a f. ?h a = Some f \<longrightarrow> regs_consistent rt f"
    using assms by (auto simp: objects_ok_def map_add_Some_iff dest!: map_of_SomeD
        intro: loaded_filters_consistent elim: in_set_zipE)
  have "set (map fst (sort_key (\<lambda>x. filter_key (snd x)) ?loaded)) \<subseteq> fst ` set ?loaded" by simp
  then have "\<forall>a\<in>set (map fst (sort_key (\<lambda>x. filter_key (snd x)) ?loaded)). ?h a \<noteq> None"
    using all by fastforce
  then show ?thesis using True fresh ids cons
    by (auto simp: fm_reload_pending objects_ok_def Let_def simp del: map_add_Some_iff)
qed

lemma reload_inv: "sys_inv rt s \<Longrightarrow> sys_inv rt (fm_reload rt s)"
  by (simp add: sys_inv_def reload_timer_ok reload_objects_ok)

lemma init_inv: "sys_inv rt s \<Longrightarrow> sys_inv rt (fm_init l b s)"
  by (simp add: fm_init_def fm_register_def sys_inv_def delayed_reload_def timer_ok_def objects_ok_def Let_def)

lemma timer_fire_inv: "sys_inv rt s \<Longrightarrow> sys_inv rt (fm_timer_fire rt s)"
  by (simp add: fm_timer_fire_def sys_inv_def reload_timer_ok reload_objects_ok)

lemma create_inv:
  assumes "sys_inv rt s"
  shows "sys_inv rt (fst (fm_create rt u l e a t s))"
proof -
  have "fst (fm_create rt u l e a t s) = s \<or> (\<exists>f. fst (fm_create rt u l e a t s) = fst (fst (filter_save sys_store f s)))"
    by (auto simp: fm_create_def Let_def split: prod.split option.split) (metis fst_conv)+
  then show ?thesis using sys_store_save_inv [OF assms] assms by auto
qed

lemma remove_inv: "sys_inv rt s \<Longrightarrow> sys_inv rt (fst (fm_remove s i))"
  using sys_store_reset_inv [of rt s]
  by (simp add: fm_remove_def split: option.split)

lemma saved_object_inv:
  assumes "sys_inv rt s" and "s_heap s a = Some f"
  shows "sys_inv rt (case filter_save sys_store f s of ((s', f'), _) \<Rightarrow> s'\<lparr>s_heap := (s_heap s')(a \<mapsto> f')\<rparr>)"
proof -
  obtain s' f' e where r: "filter_save sys_store f s = ((s', f'), e)" by (metis prod.collapse)
  have "sys_inv rt s'" "s_heap s' = s_heap s" using sys_store_save_inv [OF assms(1), of f] r by simp_all
  moreover have "regs_consistent rt f" using assms by (simp add: sys_inv_def objects_ok_def)
  then have "regs_consistent rt f'" "f_name f' = f_name f"
    using filter_save_object [of sys_store f s] r by auto
  ultimately show ?thesis using r assms(2) heap_update_inv [of rt s' a f f'] by simp
qed

lemma save_loop_inv: "sys_inv rt s \<Longrightarrow> sys_inv rt (save_loop as s)"
proof (induction as arbitrary: s)
  case (Cons a as)
  then show ?case using saved_object_inv [of rt s a]
    by (auto split: option.split prod.split)
qed simp

lemma on_object_inv:
  assumes "sys_inv rt s" and "\<And>f. regs_consistent rt f \<Longrightarrow> regs_consistent rt (g f) \<and> f_name (g f) = f_name f"
  shows "sys_inv rt (on_object a g s)"
proof (cases "s_heap s a")
  case (Some f)
  then have "regs_consistent rt f" using assms(1) by (simp add: sys_inv_def objects_ok_def)
  with Some show ?thesis using assms heap_update_inv [of rt s a f "g f"] by (simp add: on_object_def)
qed (simp add: on_object_def assms(1))

lemma sys_event_inv: "sys_inv rt s \<Longrightarrow> sys_inv rt (sys_event rt s ev)"
proof (cases ev)
  case (EvSetExpression a v)
  assume "sys_inv rt s"
  then show ?thesis using EvSetExpression set_expression_keeps_consistent
    by (simp add: on_object_inv)
next
  case (EvFilterSave a)
  assume "sys_inv rt s"
  then show ?thesis using EvFilterSave saved_object_inv [of rt s a] by (simp split: option.split)
qed (auto simp: sys_set_inv sys_reset_inv timer_fire_inv reload_inv create_inv remove_inv fm_save_all_def
       save_loop_inv on_object_inv init_inv sys_store_reset_inv split: option.split)

lemma sys0_inv: "sys_inv rt (sys0 p)"
  by (simp add: sys0_def sys_inv_def timer_ok_def objects_ok_def)

lemma reachable_inv: "reachable rt s \<Longrightarrow> sys_inv rt s"
  by (induction rule: reachable.induct) (simp_all add: sys0_inv sys_event_inv)

section \<open>The lists of the manager\<close>

text \<open>Only \<open>reload\<close> assigns \<open>_all\<close>, \<open>_active\<close> and \<open>_count\<close>.\<close>

lemma sys_store_lists [simp]:
  "fm_lists (s_fm (sys_set k v s)) = fm_lists (s_fm s)" "fm_lists (s_fm (sys_reset b s)) = fm_lists (s_fm s)"
  by (simp_all add: sys_set_def sys_reset_def notify_change_def delayed_reload_def fm_lists_def Let_def)

lemma filter_ops_lists:
  "fm_lists (s_fm (fst (fst (filter_save sys_store f s)))) = fm_lists (s_fm s)"
  "fm_lists (s_fm (fst (filter_restore sys_store f s))) = fm_lists (s_fm s)"
  "fm_lists (s_fm (fst (filter_remove sys_store f s))) = fm_lists (s_fm s)"
  using filter_save_preserves [where P = "\<lambda>s'. fm_lists (s_fm s') = fm_lists (s_fm s)" and ops = sys_store and f = f and s = s]
    filter_reset_preserves [where P = "\<lambda>s'. fm_lists (s_fm s') = fm_lists (s_fm s)" and ops = sys_store and f = f and s = s]
  by (simp_all add: sys_store_def)

lemma reload_lists_ok:
  assumes "lists_ok (s_fm s)"
  shows "lists_ok (s_fm (fm_reload rt s))"
proof (cases "fm_must_reload (s_fm s)")
  case False
  then show ?thesis using assms by (simp add: fm_reload_def)
next
  case True
  let ?L = "loaded_filters rt s"
  let ?loaded = "zip [s_next s..<s_next s + length ?L] ?L"
  let ?sorted = "sort_key (\<lambda>x. filter_key (snd x)) ?loaded"
  have "distinct (map fst ?loaded)" by simp
  then have "inj_on fst (set ?loaded) \<and> distinct ?loaded" by (simp only: distinct_map)
  then have "inj_on fst (set ?sorted)" and "distinct ?sorted" by simp_all
  then have "distinct (map fst ?sorted)" by (simp add: distinct_map)
  moreover have "subseq (map fst (filter (\<lambda>x. f_active (snd x)) ?sorted)) (map fst ?sorted)"
    by (rule subseq_map) simp
  moreover have "length (map fst ?sorted) = length ?L" by simp
  ultimately show ?thesis using True by (simp add: fm_reload_pending Let_def lists_ok_def fm_lists_def)
qed

lemma saved_object_lists:
  "fm_lists (s_fm (case filter_save sys_store f s of ((s', f'), _) \<Rightarrow> s'\<lparr>s_heap := (s_heap s')(a \<mapsto> f')\<rparr>)) =
   fm_lists (s_fm s)"
proof -
  obtain s' f' e where r: "filter_save sys_store f s = ((s', f'), e)" by (metis prod.collapse)
  then show ?thesis using filter_ops_lists(1) [of f s] by simp
qed

lemma save_loop_lists: "fm_lists (s_fm (save_loop as s)) = fm_lists (s_fm s)"
proof (induction as arbitrary: s)
  case (Cons a as)
  show ?case
  proof (cases "s_heap s a")
    case (Some f)
    let ?s1 = "case filter_save sys_store f s of ((s', f'), _) \<Rightarrow> s'\<lparr>s_heap := (s_heap s')(a \<mapsto> f')\<rparr>"
    have "save_loop (a # as) s = save_loop as ?s1" using Some by (simp split: prod.split)
    then show ?thesis using Cons.IH [of ?s1] saved_object_lists [where s = s and a = a and f = f] by simp
  qed (simp add: Cons.IH)
qed simp

lemma lists_ok_cong: "fm_lists m' = fm_lists m \<Longrightarrow> lists_ok m' = lists_ok m"
  by (simp add: lists_ok_def fm_lists_def)

lemma event_keeps_lists:
  assumes "ev \<noteq> EvTimer" and "ev \<noteq> EvReload"
  shows "fm_lists (s_fm (sys_event rt s ev)) = fm_lists (s_fm s)"
proof (cases ev)
  case (EvCreate u l e a t)
  have "fst (fm_create rt u l e a t s) = s \<or>
        (\<exists>f. fst (fm_create rt u l e a t s) = fst (fst (filter_save sys_store f s)))"
    by (auto simp: fm_create_def Let_def split: prod.split option.split) (metis fst_conv)+
  then show ?thesis using EvCreate filter_ops_lists(1) by auto
next
  case (EvInit l b)
  then show ?thesis by (simp add: fm_init_def fm_register_def delayed_reload_def fm_lists_def Let_def)
qed (use assms in \<open>auto simp: fm_remove_def fm_save_all_def on_object_def save_loop_lists filter_ops_lists
       saved_object_lists split: option.split\<close>)

lemma sys_event_lists:
  assumes "lists_ok (s_fm s)"
  shows "lists_ok (s_fm (sys_event rt s ev))"
proof -
  consider "ev = EvTimer" | "ev = EvReload" | "ev \<noteq> EvTimer" "ev \<noteq> EvReload" by blast
  then show ?thesis
  proof cases
    case 1
    have "lists_ok (s_fm (s\<lparr>s_fm := (s_fm s)\<lparr>fm_timers := fm_timers (s_fm s) - 1\<rparr>\<rparr>))"
      using assms by (simp add: lists_ok_def)
    then show ?thesis using 1 assms by (simp add: fm_timer_fire_def reload_lists_ok)
  next
    case 2
    then show ?thesis using assms by (simp add: reload_lists_ok)
  next
    case 3
    then show ?thesis using assms lists_ok_cong event_keeps_lists by metis
  qed
qed

lemma reachable_lists_ok: "reachable rt s \<Longrightarrow> lists_ok (s_fm s)"
proof (induction rule: reachable.induct)
  case (start p)
  show ?case by (simp add: sys0_def lists_ok_def)
next
  case (step s ev)
  from step.IH show ?case by (rule sys_event_lists)
qed

section \<open>Properties of the manager\<close>

text \<open>C1: in every state the system reaches, a pending reload has an armed timer, \<open>_active\<close> is part of \<open>_all\<close>, every filter of \<open>_all\<close> is a live object whose regular expressions are those its expression compiles to, and \<open>_filters\<close> maps each id to the filter of that id.\<close>

theorem reachable_invariant:
  assumes "reachable rt s"
  shows "(fm_must_reload (s_fm s) \<longrightarrow> 0 < fm_timers (s_fm s)) \<and>
         set (fm_active (s_fm s)) \<subseteq> set (fm_all (s_fm s)) \<and>
         (\<forall>a\<in>set (fm_all (s_fm s)). \<exists>f. s_heap s a = Some f \<and> regs_consistent rt f) \<and>
         (\<forall>i a. fm_filters (s_fm s) i = Some a \<longrightarrow> (\<exists>f. s_heap s a = Some f \<and> filter_id f = i))"
proof -
  have "sys_inv rt s" using assms by (rule reachable_inv)
  then show ?thesis unfolding sys_inv_def timer_ok_def objects_ok_def by fastforce
qed

text \<open>C5: in a reachable state a pending reload is done when the armed timer fires: the flag is cleared and the observers are notified.\<close>

theorem pending_reload_runs:
  assumes "reachable rt s" and "fm_must_reload (s_fm s)"
  shows "\<not> fm_must_reload (s_fm (sys_event rt s EvTimer)) \<and>
         s_notified (sys_event rt s EvTimer) = Suc (s_notified s)"
proof -
  have "0 < fm_timers (s_fm s)"
    using reachable_inv [OF assms(1)] assms(2) by (simp add: sys_inv_def timer_ok_def)
  then show ?thesis using assms(2) by (simp add: fm_timer_fire_def fm_reload_def Let_def)
qed

lemma writes_coalesce:
  assumes "fm_timers (s_fm s) \<le> 1" and "fm_must_reload (s_fm s) \<longleftrightarrow> fm_timers (s_fm s) = 1"
  shows "let s' = run rt s (map (\<lambda>(k, v). EvPrefSet k v) ws) in
           s_notified s' = s_notified s \<and> fm_timers (s_fm s') \<le> 1 \<and>
           (fm_must_reload (s_fm s') \<longleftrightarrow> fm_timers (s_fm s') = 1)"
  using assms
proof (induction ws arbitrary: s)
  case Nil
  then show ?case by (simp add: run_def)
next
  case (Cons w ws)
  obtain k v where w: "w = (k, v)" by fastforce
  have "fm_timers (s_fm (sys_set k v s)) \<le> 1 \<and>
        (fm_must_reload (s_fm (sys_set k v s)) \<longleftrightarrow> fm_timers (s_fm (sys_set k v s)) = 1) \<and>
        s_notified (sys_set k v s) = s_notified s"
    using Cons.prems by (auto simp: sys_set_def notify_change_def delayed_reload_def Let_def)
  then show ?case using Cons.IH [of "sys_set k v s"] by (simp add: w run_def Let_def)
qed

text \<open>C4: from a quiet state (no reload pending, no timer armed), any burst of preference writes followed by the timer leads to at most one reload and one notification, and leaves the manager quiet again.\<close>

theorem burst_single_reload:
  assumes "\<not> fm_must_reload (s_fm s)" and "fm_timers (s_fm s) = 0"
  shows "let s' = run rt s (map (\<lambda>(k, v). EvPrefSet k v) ws @ [EvTimer]) in
           s_notified s' \<le> Suc (s_notified s) \<and> fm_timers (s_fm s') = 0 \<and> \<not> fm_must_reload (s_fm s')"
proof -
  let ?s1 = "run rt s (map (\<lambda>(k, v). EvPrefSet k v) ws)"
  have s1: "s_notified ?s1 = s_notified s" "fm_timers (s_fm ?s1) \<le> 1"
    "fm_must_reload (s_fm ?s1) \<longleftrightarrow> fm_timers (s_fm ?s1) = 1"
    using writes_coalesce [of s rt ws] assms by (simp_all add: Let_def)
  have "run rt s (map (\<lambda>(k, v). EvPrefSet k v) ws @ [EvTimer]) = fm_timer_fire rt ?s1"
    by (simp add: run_def)
  then show ?thesis using s1
    by (cases "fm_timers (s_fm ?s1)") (auto simp: fm_timer_fire_def fm_reload_def Let_def)
qed

text \<open>C8: in a reachable state, when \<open>getFilter(id)\<close> returns a filter reference, the reference is a live filter of that id whose regular expressions are those of its expression.\<close>

theorem get_filter_sound:
  assumes "reachable rt s" and "fm_get_filter s i = Inr (FilterRef a)"
  shows "\<exists>f. s_heap s a = Some f \<and> filter_id f = i \<and> regs_consistent rt f"
proof -
  have "fm_filters (s_fm s) i = Some a"
    using assms(2) by (auto simp: fm_get_filter_def Let_def split: if_splits option.splits)
  then show ?thesis using reachable_inv [OF assms(1)] unfolding sys_inv_def objects_ok_def by blast
qed

lemma match_active_loop_eq:
  assumes "\<forall>a\<in>set as. \<exists>f. h a = Some f \<and> f_regs f \<noteq> None"
  shows "match_active_loop rt h test ty as =
           Inr (\<exists>a\<in>set as. \<exists>f. h a = Some f \<and> f_type f AND ty \<noteq> 0 \<and> filter_match rt f test = Inr True)"
  using assms by (induction as) (auto simp: filter_match_def split: option.split)

text \<open>C7: in a reachable state whose active filters all have an expression, \<open>matchActive(test, type)\<close> returns whether the test is non-empty and some active filter whose type intersects \<open>type\<close> has a compiled expression found in the test.\<close>

theorem match_active_spec:
  assumes "reachable rt s" and "fm_loaded (s_fm s)"
    and "\<forall>a\<in>set (fm_active (s_fm s)). \<exists>f. s_heap s a = Some f \<and> f_expr f \<noteq> None"
  shows "fm_match_active rt s test ty =
    Inr (test \<noteq> [] \<and>
         (\<exists>a\<in>set (fm_active (s_fm s)). \<exists>f e. s_heap s a = Some f \<and> f_expr f = Some e \<and> f_type f AND ty \<noteq> 0 \<and>
            (\<exists>m\<in>set (fst (make_regs rt e [])). rt_search rt (re_source m) (re_ignore_case m) test)))"
proof -
  have cons: "\<forall>a f. s_heap s a = Some f \<longrightarrow> regs_consistent rt f"
    using reachable_inv [OF assms(1)] by (simp add: sys_inv_def objects_ok_def)
  have regs: "\<forall>a\<in>set (fm_active (s_fm s)). \<exists>f e. s_heap s a = Some f \<and> f_expr f = Some e \<and>
                 f_regs f = Some (fst (make_regs rt e []))"
    using assms(3) cons by (fastforce simp: regs_consistent_def)
  then have "\<forall>a\<in>set (fm_active (s_fm s)). \<exists>f. s_heap s a = Some f \<and> f_regs f \<noteq> None" by fastforce
  note loop = match_active_loop_eq [OF this, of rt test ty]
  have pt: "filter_match rt f test = Inr True \<longleftrightarrow>
      test \<noteq> [] \<and> (\<exists>e. f_expr f = Some e \<and>
        (\<exists>m\<in>set (fst (make_regs rt e [])). rt_search rt (re_source m) (re_ignore_case m) test))"
    if a: "a \<in> set (fm_active (s_fm s))" and h: "s_heap s a = Some f" for a f
  proof -
    obtain e' where "f_expr f = Some e'" "f_regs f = Some (fst (make_regs rt e' []))"
      using regs a h by fastforce
    then show ?thesis by (auto simp: filter_match_def list_ex_iff)
  qed
  have "(\<exists>a\<in>set (fm_active (s_fm s)). \<exists>f. s_heap s a = Some f \<and> f_type f AND ty \<noteq> 0 \<and>
           filter_match rt f test = Inr True) \<longleftrightarrow>
        (test \<noteq> [] \<and> (\<exists>a\<in>set (fm_active (s_fm s)). \<exists>f e. s_heap s a = Some f \<and> f_expr f = Some e \<and>
           f_type f AND ty \<noteq> 0 \<and>
           (\<exists>m\<in>set (fst (make_regs rt e [])). rt_search rt (re_source m) (re_ignore_case m) test)))"
  proof
    assume "\<exists>a\<in>set (fm_active (s_fm s)). \<exists>f. s_heap s a = Some f \<and> f_type f AND ty \<noteq> 0 \<and>
              filter_match rt f test = Inr True"
    then obtain a f where a: "a \<in> set (fm_active (s_fm s))" "s_heap s a = Some f" "f_type f AND ty \<noteq> 0"
      and m: "filter_match rt f test = Inr True" by blast
    from m pt [OF a(1,2)] a show "test \<noteq> [] \<and> (\<exists>a\<in>set (fm_active (s_fm s)). \<exists>f e. s_heap s a = Some f \<and>
        f_expr f = Some e \<and> f_type f AND ty \<noteq> 0 \<and>
        (\<exists>m\<in>set (fst (make_regs rt e [])). rt_search rt (re_source m) (re_ignore_case m) test))" by blast
  next
    assume "test \<noteq> [] \<and> (\<exists>a\<in>set (fm_active (s_fm s)). \<exists>f e. s_heap s a = Some f \<and>
        f_expr f = Some e \<and> f_type f AND ty \<noteq> 0 \<and>
        (\<exists>m\<in>set (fst (make_regs rt e [])). rt_search rt (re_source m) (re_ignore_case m) test))"
    then obtain a f e where a: "a \<in> set (fm_active (s_fm s))" "s_heap s a = Some f" "f_type f AND ty \<noteq> 0"
      and m: "test \<noteq> []" "f_expr f = Some e"
        "\<exists>m\<in>set (fst (make_regs rt e [])). rt_search rt (re_source m) (re_ignore_case m) test" by blast
    from m pt [OF a(1,2)] a show "\<exists>a\<in>set (fm_active (s_fm s)). \<exists>f. s_heap s a = Some f \<and>
        f_type f AND ty \<noteq> 0 \<and> filter_match rt f test = Inr True" by blast
  qed
  then show ?thesis
    using assms(2) by (simp add: fm_match_active_def loop)
qed

lemma fe_take_drains:
  "fe_take (length fs - i) \<lparr>fe_filters = Some fs, fe_idx = i\<rparr> =
     (\<lparr>fe_filters = Some fs, fe_idx = max i (length fs)\<rparr>, Inr (drop i fs))"
proof (induction "length fs - i" arbitrary: i)
  case 0
  then show ?case by (simp add: max_def)
next
  case (Suc n)
  then have "i < length fs" by simp
  moreover have "fe_take (length fs - Suc i) \<lparr>fe_filters = Some fs, fe_idx = Suc i\<rparr> =
     (\<lparr>fe_filters = Some fs, fe_idx = max (Suc i) (length fs)\<rparr>, Inr (drop (Suc i) fs))"
    using Suc by simp
  moreover have "length fs - i = Suc (length fs - Suc i)" using \<open>i < length fs\<close> by simp
  ultimately show ?case
    by (simp only:) (simp add: fe_get_next_def Cons_nth_drop_Suc max_def)
qed

text \<open>C26: after a reload, \<open>getNext\<close> called \<open>count\<close> times on \<open>enumAll()\<close> returns the filters of \<open>_all\<close> in order, after which \<open>hasMoreElements\<close> is false and \<open>getNext\<close> throws \<open>NS_ERROR_FAILURE\<close>.\<close>

theorem enum_all_drains:
  assumes "fm_loaded (s_fm s)"
  shows "\<exists>e. fe_take (length (fm_all (s_fm s))) (fm_enum_all s) = (e, Inr (fm_all (s_fm s))) \<and>
             fe_has_more e = Inr False \<and> fe_get_next e = (e, Inl NS_ERROR_FAILURE)"
  using fe_take_drains [of "fm_all (s_fm s)" 0] assms
  by (simp add: fm_enum_all_def fe_has_more_def fe_get_next_def)

text \<open>C29: in every reachable state \<open>count\<close> is the number of filters of \<open>_all\<close>, \<open>_all\<close> lists no filter object twice and only allocated ones, and \<open>_active\<close> is a subsequence of \<open>_all\<close>, so it is never longer than \<open>count\<close>.\<close>

theorem reachable_lists_bounds:
  assumes "reachable rt s"
  shows "fm_count (s_fm s) = length (fm_all (s_fm s)) \<and> distinct (fm_all (s_fm s)) \<and>
         subseq (fm_active (s_fm s)) (fm_all (s_fm s)) \<and> length (fm_active (s_fm s)) \<le> fm_count (s_fm s) \<and>
         list_all (\<lambda>a. a < s_next s) (fm_all (s_fm s))"
proof -
  have l: "lists_ok (s_fm s)" using assms by (rule reachable_lists_ok)
  have "objects_ok rt s" using reachable_inv [OF assms] by (simp add: sys_inv_def)
  then have "list_all (\<lambda>a. a < s_next s) (fm_all (s_fm s))"
    by (auto simp: objects_ok_def list_all_iff not_le [symmetric])
  moreover have "length (fm_active (s_fm s)) \<le> fm_count (s_fm s)"
    using l list_emb_length by (auto simp: lists_ok_def)
  ultimately show ?thesis using l by (simp add: lists_ok_def)
qed

text \<open>C30: in every reachable state every regular expression a filter object holds in \<open>_regs\<close> is one \<open>new RegExp\<close> returned: the engine accepts its source under its flag.\<close>

theorem reachable_regs_valid:
  assumes "reachable rt s" and "s_heap s a = Some f" and "f_regs f = Some ms"
  shows "list_all (re_valid rt) ms"
proof -
  have "regs_consistent rt f" using reachable_inv [OF assms(1)] assms(2)
    by (simp add: sys_inv_def objects_ok_def)
  then obtain e where "ms = fst (make_regs rt e [])"
    using assms(3) by (auto simp: regs_consistent_def split: option.splits)
  then show ?thesis using make_regs_valid(1) [of rt "[]" e] by simp
qed

lemma store_events_unobserved:
  "\<not> fm_observing (s_fm t) \<Longrightarrow> s_fm (run rt t (map store_event ws)) = s_fm t"
proof (induction ws arbitrary: t)
  case (Cons w ws)
  have "s_fm (sys_event rt t (store_event w)) = s_fm t"
    using Cons.prems
    by (cases w) (auto simp: store_event_def sys_set_def sys_reset_def notify_change_def Let_def)
  then show ?case using Cons.IH [of "sys_event rt t (store_event w)"] Cons.prems by (simp add: run_def)
qed (simp add: run_def)

lemma timer_fire_observing [simp]: "fm_observing (s_fm (fm_timer_fire rt s)) = fm_observing (s_fm s)"
  by (simp add: fm_timer_fire_def fm_reload_def Let_def)

text \<open>C33: when \<open>Preferences.addObserver\<close> fails, \<open>register()\<close> swallows the exception and \<open>init()\<close> ignores its \<open>false\<close>: the one reload \<open>init\<close> schedules still comes, but no later write or reset of the store, before or after it, schedules another, so filters created or changed afterwards never reach \<open>_all\<close>.\<close>

theorem unregistered_observer:
  assumes "\<not> fm_inited (s_fm s)"
  shows "fm_must_reload (s_fm (fm_init l False s)) \<and>
         s_fm (run rt (fm_init l False s) (map store_event ws)) = s_fm (fm_init l False s) \<and>
         s_fm (run rt (fm_timer_fire rt (fm_init l False s)) (map store_event ws)) =
           s_fm (fm_timer_fire rt (fm_init l False s))"
proof -
  have o: "\<not> fm_observing (s_fm (fm_init l False s))"
    using assms by (simp add: fm_init_def fm_register_def delayed_reload_def Let_def)
  have "fm_must_reload (s_fm (fm_init l False s))"
    using assms by (simp add: fm_init_def fm_register_def delayed_reload_def Let_def)
  moreover have "\<not> fm_observing (s_fm (fm_timer_fire rt (fm_init l False s)))" using o by simp
  ultimately show ?thesis using o store_events_unobserved by blast
qed

text \<open>C28: setting \<open>active\<close> to false on a filter object of \<open>_active\<close> changes only the object: in every reachable state the result is again reachable, the filter is inactive and still in \<open>_active\<close>, and the manager's fields are unchanged, so \<open>_active\<close> is not the active part of \<open>_all\<close> until the next reload.\<close>

theorem stale_active_view:
  assumes "reachable rt s" and "a \<in> set (fm_active (s_fm s))"
  shows "reachable rt (sys_event rt s (EvSetActive a False)) \<and>
         s_fm (sys_event rt s (EvSetActive a False)) = s_fm s \<and>
         a \<in> set (fm_active (s_fm (sys_event rt s (EvSetActive a False)))) \<and>
         s_heap (sys_event rt s (EvSetActive a False)) a \<noteq> None \<and>
         \<not> f_active (the (s_heap (sys_event rt s (EvSetActive a False)) a))"
proof -
  have "objects_ok rt s" using reachable_inv [OF assms(1)] by (simp add: sys_inv_def)
  then have "a \<in> set (fm_all (s_fm s))" and "\<forall>a\<in>set (fm_all (s_fm s)). s_heap s a \<noteq> None"
    using assms(2) by (auto simp: objects_ok_def)
  then obtain f where f: "s_heap s a = Some f" by blast
  have r: "reachable rt (sys_event rt s (EvSetActive a False))" using assms(1) by (rule reachable.step)
  with f assms(2) show ?thesis by (simp add: on_object_def set_active_def)
qed

lemma ends_with_label: "js_ends_with k ''.label'' \<Longrightarrow> k = take (length k - 6) k @ CHR ''.'' # ''label''"
proof -
  assume "js_ends_with k ''.label''"
  then have "k = take (length k - length ''.label'') k @ ''.label''"
    by (metis append_take_drop_id js_ends_with_def)
  moreover have "length ''.label'' = (6::nat)" by (simp add: numeral_eq_Suc)
  ultimately show ?thesis by (simp only:)
qed

text \<open>C34: \<open>create\<close> does not check the label: with an empty label and an expression that compiles it saves the filter and returns its id, but the saved store holds the empty label, so no filter with that id loads from it and the reload the writes schedule drops it (\<open>Empty filter!\<close>).\<close>

theorem create_empty_label_dropped:
  assumes "uuid \<noteq> []" and "snd (make_regs rt expr []) = None"
  shows "snd (fm_create rt uuid [] expr act ty s) = Inr uuid \<and>
         uuid \<notin> filter_id ` set (loaded_filters rt (fst (fm_create rt uuid [] expr act ty s)))"
proof -
  let ?s' = "fst (fm_create rt uuid [] expr act ty s)"
  have r: "snd (fm_create rt uuid [] expr act ty s) = Inr uuid"
    using assms(2)
    by (simp add: fm_create_def set_expression_cases new_filter_def filter_save_def save_writes_def
        sys_store_def filter_id_def Let_def del: make_regs.simps)
  have pk: "pref_get (s_prefs ?s') ((BASE @ uuid) @ CHR ''.'' # ''label'') = Some (PStr [])"
    using assms(2)
    by (simp add: fm_create_def set_expression_cases new_filter_def filter_save_def save_writes_def
        sys_store_def sys_set_def filter_pref_def Let_def del: make_regs.simps)
  have "filter_id f \<noteq> uuid" if f: "f \<in> set (loaded_filters rt ?s')" for f
  proof
    assume id: "filter_id f = uuid"
    from f obtain k where k: "load_key rt (s_prefs ?s') (fm_labels (s_fm ?s')) k = Some f"
      and kc: "k \<in> set (pref_children BASE (s_prefs ?s'))"
      by (auto simp: loaded_filters_def in_set_map_filter)
    let ?n = "take (length k - 6) k"
    from load_key_Some [OF k] have e: "js_ends_with k ''.label''"
      and ld: "filter_load rt (s_prefs ?s') (fm_labels (s_fm ?s') (filter_id (new_filter ?n))) (new_filter ?n) = (f, None)"
      by auto
    have "f_name f = f_name (fst (filter_load rt (s_prefs ?s') (fm_labels (s_fm ?s') (filter_id (new_filter ?n)))
                                 (new_filter ?n)))"
      by (simp only: ld fst_conv)
    also have "\<dots> = ?n" by simp
    finally have "f_name f = ?n" .
    with id have d: "drop (length BASE) ?n = uuid" by (simp add: filter_id_def)
    have kn: "k = ?n @ CHR ''.'' # ''label''" using e by (rule ends_with_label)
    from kc have tk: "take (length BASE) k = BASE" by (simp add: set_pref_children js_starts_with_def)
    have "length BASE < length ?n" using d assms(1) by (metis drop_all leI)
    then have "take (length BASE) ?n = take (length BASE) k" by (subst kn) simp
    with tk d have "?n = BASE @ uuid" by (metis append_take_drop_id)
    with ld pk show False by (simp add: filter_load_def Let_def)
  qed
  with r show ?thesis by blast
qed
end
