(* ===== verification/JsRegExp.thy ===== *)
theory JsRegExp
  imports PatternCompiler JsNumber
begin

text \<open>
  The regular-expression engine \<open>filterManager.js\<close> calls through
  \<open>new RegExp(source, flags)\<close> and \<open>str.search(re)\<close> (lines 82, 105, 143):
  SpiderMonkey's implementation of ECMA-262 3rd edition, section 15.10, which
  is not part of the repository and is modelled here from that standard.  The
  model covers the fragment the glob compiler produces and simple explicit
  expressions: literal and escaped characters (also \<open>\xHH\<close>, \<open>\uHHHH\<close>
  up to \<open>0xFF\<close>, \<open>\cX\<close> and \<open>\0\<close>), \<open>.\<close>, the class escapes
  \<open>\d \D \w \W \s \S\<close>, the assertions \<open>^ $ \b \B\<close>, groups \<open>( )\<close> and
  \<open>(?: )\<close>, the look-aheads \<open>(?= )\<close> and \<open>(?! )\<close>, alternation, the
  quantifiers \<open>* + ?\<close> and \<open>{n} {n,} {n,m}\<close> (greedy or lazy), and
  character classes \<open>[...]\<close> and \<open>[^...]\<close> with single characters, ranges
  and class escapes.  Back references (\<open>\1\<close> to \<open>\9\<close>), octal escapes,
  \<open>\u\<close> above \<open>0xFF\<close>, a range with a class escape as an end, and a \<open>{\<close>, \<open>}\<close> or \<open>]\<close> that is not
  part of a quantifier or class are outside the fragment: such a source
  parses to \<open>PUnsup\<close>, which the engine accepts and never matches; no
  theorem is stated about such a source.  Without back references a
  look-ahead's meaning is whether its body matches some span, which is what
  \<open>RxLook\<close> states.

  Matching is given twice: \<open>rx_at\<close>, the set of spans \<open>[i, j)\<close> of the input
  the expression matches (the meaning of a pattern in ECMA-262, where
  backtracking explores every alternative), and \<open>rx_ends\<close>, which computes the
  ends of the matches from a start position.  \<open>search\<close> returns a position
  iff some span matches.
\<close>

section \<open>Syntax\<close>

datatype cclass = CDigit | CWord | CSpace

text \<open>A member of a character class: a character, a range, a class escape.\<close>

datatype citem = CiChar char | CiRange char char | CiClass bool cclass

datatype rx =
    RxEmpty
  | RxChar char
  | RxAny
  | RxClass bool cclass
  | RxBol
  | RxEol
  | RxWordB bool
  | RxSeq rx rx
  | RxAlt rx rx
  | RxStar rx
  | RxSet bool "citem list"
  | RxLook bool rx

text \<open>Tokens of a source; \<open>TBad\<close> is a syntax error, \<open>TUnsup\<close> a construct outside the fragment.\<close>

datatype tok = TAtom rx | TAssert rx | TStar | TPlus | TOpt | TOpen | TClose | TBar | TBad | TUnsup
  | TCount nat "nat option" | TLook bool

datatype pres = PBad | PUnsup | POk rx

definition is_digit :: "char \<Rightarrow> bool" where
  "is_digit c \<longleftrightarrow> CHR ''0'' \<le> c \<and> c \<le> CHR ''9''"

definition is_word :: "char \<Rightarrow> bool" where
  "is_word c \<longleftrightarrow> is_digit c \<or> (CHR ''a'' \<le> c \<and> c \<le> CHR ''z'') \<or> (CHR ''A'' \<le> c \<and> c \<le> CHR ''Z'') \<or> c = CHR ''_''"

definition in_cclass :: "cclass \<Rightarrow> char \<Rightarrow> bool" where
  "in_cclass k c = (case k of CDigit \<Rightarrow> is_digit c | CWord \<Rightarrow> is_word c | CSpace \<Rightarrow> js_space c)"

text \<open>
  \<open>AtomEscape\<close> (15.10.2.10--12): a non-alphanumeric character stands for
  itself (as in every implementation, also for \<open>$\<close> and \<open>_\<close>).
\<close>

definition esc_tok :: "char \<Rightarrow> tok" where
  "esc_tok d =
     (if d = CHR ''d'' then TAtom (RxClass False CDigit) else if d = CHR ''D'' then TAtom (RxClass True CDigit)
      else if d = CHR ''w'' then TAtom (RxClass False CWord) else if d = CHR ''W'' then TAtom (RxClass True CWord)
      else if d = CHR ''s'' then TAtom (RxClass False CSpace) else if d = CHR ''S'' then TAtom (RxClass True CSpace)
      else if d = CHR ''b'' then TAssert (RxWordB True) else if d = CHR ''B'' then TAssert (RxWordB False)
      else if d = CHR ''f'' then TAtom (RxChar CHR 0x0C) else if d = CHR ''n'' then TAtom (RxChar CHR 0x0A)
      else if d = CHR ''r'' then TAtom (RxChar CHR 0x0D) else if d = CHR ''t'' then TAtom (RxChar CHR 0x09)
      else if d = CHR ''v'' then TAtom (RxChar CHR 0x0B)
      else if is_word d then TUnsup
      else TAtom (RxChar d))"

text \<open>
  The escapes longer than one character, after the backslash: \<open>\xHH\<close>,
  \<open>\uHHHH\<close> (a code unit above \<open>0xFF\<close> is outside the Latin-1 model),
  \<open>\cX\<close> for a letter \<open>X\<close> (its code modulo 32), and \<open>\0\<close> not followed by
  a digit (15.10.2.10--11); the token and how many characters it took.
\<close>

definition is_letter :: "char \<Rightarrow> bool" where
  "is_letter c \<longleftrightarrow> (CHR ''a'' \<le> c \<and> c \<le> CHR ''z'') \<or> (CHR ''A'' \<le> c \<and> c \<le> CHR ''Z'')"

definition esc_long :: "string \<Rightarrow> (tok \<times> nat) option" where
  "esc_long cs =
     (if take 1 cs = ''x'' \<and> 3 \<le> length cs then
        map_option (\<lambda>v. (TAtom (RxChar (char_of (nat v))), 3)) (hex_val 0 (take 2 (drop 1 cs)))
      else if take 1 cs = ''u'' \<and> 5 \<le> length cs then
        map_option (\<lambda>v. (if v < 256 then TAtom (RxChar (char_of (nat v))) else TUnsup, 5))
          (hex_val 0 (take 4 (drop 1 cs)))
      else if take 1 cs = ''c'' \<and> 2 \<le> length cs \<and> is_letter (cs ! 1) then
        Some (TAtom (RxChar (char_of (of_char (cs ! 1) mod (32::nat)))), 2)
      else if take 1 cs = ''0'' \<and> \<not> (2 \<le> length cs \<and> is_digit (cs ! 1)) then
        Some (TAtom (RxChar (CHR 0x00)), 1)
      else None)"

text \<open>\<open>PatternCharacter\<close> and the one-character tokens (15.10.1).\<close>

definition simple_tok :: "char \<Rightarrow> tok" where
  "simple_tok c =
     (if c = CHR '')'' then TClose else if c = CHR ''|'' then TBar
      else if c = CHR ''.'' then TAtom RxAny
      else if c = CHR ''^'' then TAssert RxBol else if c = CHR ''$'' then TAssert RxEol
      else if c \<in> set ''[]{}'' then TUnsup
      else TAtom (RxChar c))"

definition quant_tok :: "char \<Rightarrow> tok" where
  "quant_tok c = (if c = CHR ''*'' then TStar else if c = CHR ''+'' then TPlus else TOpt)"

text \<open>A \<open>?\<close> right after a quantifier makes it lazy, which does not change what is found.\<close>

text \<open>
  Inside a class (15.10.2.19): \<open>\b\<close> is backspace, the class escapes
  stand for their sets, other escapes as outside.
\<close>

datatype catom = AChar char | AEsc citem | AUnsup

definition cl_esc :: "char \<Rightarrow> catom" where
  "cl_esc d =
     (if d = CHR ''d'' then AEsc (CiClass False CDigit) else if d = CHR ''D'' then AEsc (CiClass True CDigit)
      else if d = CHR ''w'' then AEsc (CiClass False CWord) else if d = CHR ''W'' then AEsc (CiClass True CWord)
      else if d = CHR ''s'' then AEsc (CiClass False CSpace) else if d = CHR ''S'' then AEsc (CiClass True CSpace)
      else if d = CHR ''b'' then AChar CHR 0x08
      else if d = CHR ''f'' then AChar CHR 0x0C else if d = CHR ''n'' then AChar CHR 0x0A
      else if d = CHR ''r'' then AChar CHR 0x0D else if d = CHR ''t'' then AChar CHR 0x09
      else if d = CHR ''v'' then AChar CHR 0x0B
      else if is_word d then AUnsup
      else AChar d)"

text \<open>
  An escape inside a class, after the backslash: the escapes longer than one
  character read as outside, the others by \<open>cl_esc\<close>; the atom and how many
  characters it took.
\<close>

definition cl_esc_at :: "char \<Rightarrow> string \<Rightarrow> catom \<times> nat" where
  "cl_esc_at d ds =
     (case esc_long (d # ds) of
        Some (TAtom (RxChar e), n) \<Rightarrow> (AChar e, n)
      | Some (_, n) \<Rightarrow> (AUnsup, n)
      | None \<Rightarrow> (cl_esc d, 1))"

text \<open>The atoms of a class up to its \<open>]\<close>, and how many characters that took; \<open>None\<close> if unterminated.\<close>

fun cl_scan :: "string \<Rightarrow> catom list \<Rightarrow> (catom list \<times> nat) option" where
  "cl_scan [] acc = None"
| "cl_scan (c # cs) acc =
     (if c = CHR '']'' then Some (acc, 1)
      else if c = CHR 0x5C then
        (case cs of
           [] \<Rightarrow> None
         | d # ds \<Rightarrow>
             (case cl_esc_at d ds of
                (x, k) \<Rightarrow> map_option (\<lambda>(a, n). (a, n + Suc k)) (cl_scan (drop k cs) (acc @ [x]))))
      else map_option (\<lambda>(a, n). (a, Suc n)) (cl_scan cs (acc @ [AChar c])))"

datatype cres = CrBad | CrUnsup | CrOk "citem list"

definition cr_cons :: "citem \<Rightarrow> cres \<Rightarrow> cres" where
  "cr_cons it r = (case r of CrOk l \<Rightarrow> CrOk (it # l) | _ \<Rightarrow> r)"

definition cl_single :: "catom \<Rightarrow> cres \<Rightarrow> cres" where
  "cl_single x r =
     (case x of AChar a \<Rightarrow> cr_cons (CiChar a) r | AEsc it \<Rightarrow> cr_cons it r
      | AUnsup \<Rightarrow> (if r = CrBad then CrBad else CrUnsup))"

text \<open>\<open>ClassRanges\<close> (15.10.2.15): \<open>a-b\<close> is a range, a syntax error when \<open>b < a\<close>.\<close>

function cl_items :: "catom list \<Rightarrow> cres" where
  "cl_items [] = CrOk []"
| "cl_items (x # rest) =
     (case rest of
        y # z # rest' \<Rightarrow>
          if y = AChar CHR ''-'' then
            (case (x, z) of
               (AChar a, AChar b) \<Rightarrow> if b < a then CrBad else cr_cons (CiRange a b) (cl_items rest')
             | _ \<Rightarrow> (if cl_items rest' = CrBad then CrBad else CrUnsup))
          else cl_single x (cl_items rest)
      | _ \<Rightarrow> cl_single x (cl_items rest))"
  by pat_completeness auto
termination by (relation "measure length") auto

text \<open>
  \<open>QuantifierPrefix\<close> \<open>{n}\<close>, \<open>{n,}\<close>, \<open>{n,m}\<close> after the \<open>{\<close>: the bounds
  and how many characters they took.
\<close>

definition lex_count :: "string \<Rightarrow> (nat \<times> nat option \<times> nat) option" where
  "lex_count cs =
     (let d1 = takeWhile is_digit cs; r1 = dropWhile is_digit cs; n = nat (js_digits_val 0 d1)
      in if d1 = [] \<or> r1 = [] then None
         else if hd r1 = CHR ''}'' then Some (n, Some n, Suc (length d1))
         else if hd r1 = CHR '','' then
           (let d2 = takeWhile is_digit (tl r1); r2 = dropWhile is_digit (tl r1)
            in if r2 \<noteq> [] \<and> hd r2 = CHR ''}''
               then Some (n, if d2 = [] then None else Some (nat (js_digits_val 0 d2)), length d1 + length d2 + 2)
               else None)
         else None)"

definition lazy_len :: "string \<Rightarrow> nat" where
  "lazy_len cs = (if take 1 cs = ''?'' then 1 else 0)"

function lex :: "string \<Rightarrow> tok list" where
  "lex [] = []"
| "lex (c # cs) =
     (if c = CHR 0x5C then
        (if cs = [] then [TBad]
         else case esc_long cs of
                Some (t, n) \<Rightarrow> t # lex (drop n cs)
              | None \<Rightarrow> esc_tok (hd cs) # lex (tl cs))
      else if c = CHR ''*'' \<or> c = CHR ''+'' \<or> c = CHR ''?'' then quant_tok c # lex (drop (lazy_len cs) cs)
      else if c = CHR ''('' then
        (if take 2 cs = ''?:'' then TOpen # lex (drop 2 cs)
         else if take 2 cs = ''?='' \<or> take 2 cs = ''?!'' then TLook (take 2 cs = ''?='') # lex (drop 2 cs)
         else if take 1 cs = ''?'' then [TBad]
         else TOpen # lex cs)
      else if c = CHR ''['' then
        (let neg = (take 1 cs = ''^''); body = (if neg then tl cs else cs)
         in case cl_scan body [] of
              None \<Rightarrow> [TBad]
            | Some (atoms, n) \<Rightarrow>
                (case cl_items atoms of
                   CrBad \<Rightarrow> [TBad]
                 | CrUnsup \<Rightarrow> [TUnsup]
                 | CrOk its \<Rightarrow> TAtom (RxSet neg its) # lex (drop n body)))
      else if c = CHR ''{'' then
        (case lex_count cs of
           None \<Rightarrow> [TUnsup]
         | Some (n, m, k) \<Rightarrow>
             if (case m of Some m' \<Rightarrow> m' < n | None \<Rightarrow> False) then [TBad]
             else TCount n m # lex (drop (lazy_len (drop k cs)) (drop k cs)))
      else simple_tok c # lex cs)"
  by pat_completeness auto
termination by (relation "measure length") auto

text \<open>
  The parser keeps a stack of open groups; a group is what opened it
  (\<open>None\<close> for \<open>(\<close>, \<open>(?:\<close> and the whole source, \<open>Some p\<close> for a
  look-ahead, \<open>p\<close> for \<open>(?=\<close>), the alternatives finished so far and the
  terms of the current one, latest first, each with whether a quantifier may
  follow it (an atom, not an assertion or a quantified term; a look-ahead is
  an atom in ECMA-262 3rd edition).
\<close>

type_synonym frame = "rx list \<times> (rx \<times> bool) list"

definition seq_rx :: "(rx \<times> bool) list \<Rightarrow> rx" where
  "seq_rx sq = foldl (\<lambda>acc x. RxSeq (fst x) acc) RxEmpty sq"

definition frame_rx :: "frame \<Rightarrow> rx" where
  "frame_rx fr = foldr RxAlt (fst fr) (seq_rx (snd fr))"

definition group_rx :: "bool option \<Rightarrow> frame \<Rightarrow> rx" where
  "group_rx g fr = (case g of None \<Rightarrow> frame_rx fr | Some p \<Rightarrow> RxLook p (frame_rx fr))"

text \<open>\<open>r{n,m}\<close> is \<open>n\<close> copies of \<open>r\<close> followed by up to \<open>m - n\<close> optional ones; \<open>r{n,}\<close> ends in \<open>r*\<close>.\<close>

fun rx_rep :: "nat \<Rightarrow> rx \<Rightarrow> rx \<Rightarrow> rx" where
  "rx_rep 0 r t = t"
| "rx_rep (Suc n) r t = RxSeq r (rx_rep n r t)"

fun rx_upto :: "nat \<Rightarrow> rx \<Rightarrow> rx" where
  "rx_upto 0 r = RxEmpty"
| "rx_upto (Suc k) r = RxAlt (RxSeq r (rx_upto k r)) RxEmpty"

fun quantify :: "tok \<Rightarrow> rx \<Rightarrow> rx" where
  "quantify TStar r = RxStar r"
| "quantify TPlus r = RxSeq r (RxStar r)"
| "quantify (TCount n None) r = rx_rep n r (RxStar r)"
| "quantify (TCount n (Some m)) r = rx_rep n r (rx_upto (m - n) r)"
| "quantify _ r = RxAlt r RxEmpty"

fun parse_toks :: "tok list \<Rightarrow> (bool option \<times> frame) list \<Rightarrow> pres" where
  "parse_toks [] [(g, fr)] = POk (frame_rx fr)"
| "parse_toks [] _ = PBad"
| "parse_toks (TUnsup # ts) st = PUnsup"
| "parse_toks (TBad # ts) st = PBad"
| "parse_toks (t # ts) [] = PBad"
| "parse_toks (TAtom r # ts) ((g, alts, sq) # st) = parse_toks ts ((g, alts, (r, True) # sq) # st)"
| "parse_toks (TAssert r # ts) ((g, alts, sq) # st) = parse_toks ts ((g, alts, (r, False) # sq) # st)"
| "parse_toks (TBar # ts) ((g, alts, sq) # st) = parse_toks ts ((g, alts @ [seq_rx sq], []) # st)"
| "parse_toks (TOpen # ts) st = parse_toks ts ((None, [], []) # st)"
| "parse_toks (TLook p # ts) st = parse_toks ts ((Some p, [], []) # st)"
| "parse_toks (TClose # ts) ((g, fr) # (g', alts, sq) # st) =
     parse_toks ts ((g', alts, (group_rx g fr, True) # sq) # st)"
| "parse_toks (TClose # ts) _ = PBad"
| "parse_toks (q # ts) ((g, alts, (r, True) # sq) # st) = parse_toks ts ((g, alts, (quantify q r, False) # sq) # st)"
| "parse_toks (q # ts) _ = PBad"

definition rx_parse :: "string \<Rightarrow> pres" where
  "rx_parse src = parse_toks (lex src) [(None, [], [])]"

section \<open>Semantics\<close>

text \<open>\<open>Canonicalize\<close> (15.10.2.8) under the \<open>i\<close> flag.\<close>

definition char_eq :: "bool \<Rightarrow> char \<Rightarrow> char \<Rightarrow> bool" where
  "char_eq ic a b \<longleftrightarrow> (if ic then js_canon a = js_canon b else a = b)"

definition in_citem :: "citem \<Rightarrow> char \<Rightarrow> bool" where
  "in_citem it c = (case it of CiChar a \<Rightarrow> c = a | CiRange lo hi \<Rightarrow> lo \<le> c \<and> c \<le> hi | CiClass neg k \<Rightarrow> in_cclass k c \<noteq> neg)"

text \<open>\<open>CharacterSetMatcher\<close> (15.10.2.8): under \<open>i\<close>, some member canonicalizes as the input does.\<close>

definition set_match :: "bool \<Rightarrow> citem list \<Rightarrow> char \<Rightarrow> bool" where
  "set_match ic its c =
     (if ic then list_ex (\<lambda>a. list_ex (\<lambda>it. in_citem it a) its \<and> js_canon a = js_canon c) Enum.enum
      else list_ex (\<lambda>it. in_citem it c) its)"

definition at_boundary :: "string \<Rightarrow> nat \<Rightarrow> bool" where
  "at_boundary s i \<longleftrightarrow>
     (0 < i \<and> i \<le> length s \<and> is_word (s ! (i - 1))) \<noteq> (i < length s \<and> is_word (s ! i))"

text \<open>The spans \<open>[i, j)\<close> of the input \<open>s\<close> that \<open>r\<close> matches.\<close>

function rx_at :: "bool \<Rightarrow> string \<Rightarrow> rx \<Rightarrow> nat \<Rightarrow> nat \<Rightarrow> bool" where
  "rx_at ic s RxEmpty i j \<longleftrightarrow> j = i"
| "rx_at ic s (RxChar c) i j \<longleftrightarrow> j = Suc i \<and> i < length s \<and> char_eq ic (s ! i) c"
| "rx_at ic s RxAny i j \<longleftrightarrow> j = Suc i \<and> i < length s \<and> \<not> js_line_term (s ! i)"
| "rx_at ic s (RxClass neg k) i j \<longleftrightarrow> j = Suc i \<and> i < length s \<and> in_cclass k (s ! i) \<noteq> neg"
| "rx_at ic s RxBol i j \<longleftrightarrow> j = i \<and> i = 0"
| "rx_at ic s RxEol i j \<longleftrightarrow> j = i \<and> i = length s"
| "rx_at ic s (RxWordB b) i j \<longleftrightarrow> j = i \<and> at_boundary s i = b"
| "rx_at ic s (RxSeq a b) i j \<longleftrightarrow> (\<exists>k\<in>set [i..<Suc j]. rx_at ic s a i k \<and> rx_at ic s b k j)"
| "rx_at ic s (RxAlt a b) i j \<longleftrightarrow> rx_at ic s a i j \<or> rx_at ic s b i j"
| "rx_at ic s (RxStar r) i j \<longleftrightarrow>
     i = j \<or> (\<exists>k\<in>set [Suc i..<Suc j]. rx_at ic s r i k \<and> rx_at ic s (RxStar r) k j)"
| "rx_at ic s (RxSet neg its) i j \<longleftrightarrow> j = Suc i \<and> i < length s \<and> set_match ic its (s ! i) \<noteq> neg"
| "rx_at ic s (RxLook p r) i j \<longleftrightarrow> j = i \<and> (\<exists>k\<in>set [i..<Suc (length s)]. rx_at ic s r i k) = p"
  by pat_completeness auto
termination
  by (relation "measures [\<lambda>(ic, s, r, i, j). size r, \<lambda>(ic, s, r, i, j). j - i]") auto

text \<open>The ends of the matches of \<open>r\<close> that start at \<open>i\<close>.\<close>

function rx_ends :: "bool \<Rightarrow> string \<Rightarrow> rx \<Rightarrow> nat \<Rightarrow> nat list" where
  "rx_ends ic s RxEmpty i = [i]"
| "rx_ends ic s (RxChar c) i = (if i < length s \<and> char_eq ic (s ! i) c then [Suc i] else [])"
| "rx_ends ic s RxAny i = (if i < length s \<and> \<not> js_line_term (s ! i) then [Suc i] else [])"
| "rx_ends ic s (RxClass neg k) i = (if i < length s \<and> in_cclass k (s ! i) \<noteq> neg then [Suc i] else [])"
| "rx_ends ic s RxBol i = (if i = 0 then [i] else [])"
| "rx_ends ic s RxEol i = (if i = length s then [i] else [])"
| "rx_ends ic s (RxWordB b) i = (if at_boundary s i = b then [i] else [])"
| "rx_ends ic s (RxSeq a b) i = remdups (concat (map (rx_ends ic s b) (rx_ends ic s a i)))"
| "rx_ends ic s (RxAlt a b) i = remdups (rx_ends ic s a i @ rx_ends ic s b i)"
| "rx_ends ic s (RxStar r) i =
     remdups (i # concat (map (\<lambda>k. if i < k \<and> k \<le> length s then rx_ends ic s (RxStar r) k else [])
                            (rx_ends ic s r i)))"
| "rx_ends ic s (RxSet neg its) i = (if i < length s \<and> set_match ic its (s ! i) \<noteq> neg then [Suc i] else [])"
| "rx_ends ic s (RxLook p r) i = (if (rx_ends ic s r i \<noteq> []) = p then [i] else [])"
  by pat_completeness auto
termination
  by (relation "measures [\<lambda>(ic, s, r, i). size r, \<lambda>(ic, s, r, i). length s - i]") auto

text \<open>\<open>str.search(re) != -1\<close> (15.5.4.12): a match starts at some position.\<close>

definition rx_search :: "bool \<Rightarrow> rx \<Rightarrow> string \<Rightarrow> bool" where
  "rx_search ic r s \<longleftrightarrow> (\<exists>i\<in>set [0..<Suc (length s)]. rx_ends ic s r i \<noteq> [])"

text \<open>The engine behind \<open>regexp_rt\<close>: \<open>new RegExp\<close> throws exactly on \<open>PBad\<close>.\<close>

definition es_rt :: regexp_rt where
  "es_rt =
     \<lparr>rt_compiles = (\<lambda>src ic. rx_parse src \<noteq> PBad),
      rt_search = (\<lambda>src ic str. case rx_parse src of POk r \<Rightarrow> rx_search ic r str | _ \<Rightarrow> False)\<rparr>"

section \<open>The wildcard reading of a glob\<close>

text \<open>
  What a glob promises (spec, section 4.1): \<open>*\<close> any sequence, \<open>?\<close> any one
  character (neither across a line break, as \<open>.\<close>), every other character
  itself, ignoring case; the glob matches a string when it matches a part of it.
\<close>

fun glob_matches :: "string \<Rightarrow> string \<Rightarrow> bool" where
  "glob_matches [] w \<longleftrightarrow> w = []"
| "glob_matches (c # t) w \<longleftrightarrow>
     (if c = CHR ''*'' then (\<exists>k\<in>set [0..<Suc (length w)]. (\<forall>x\<in>set (take k w). \<not> js_line_term x) \<and> glob_matches t (drop k w))
      else w \<noteq> [] \<and> (if c = CHR ''?'' then \<not> js_line_term (hd w) else char_eq True (hd w) c) \<and> glob_matches t (tl w))"

definition glob_search :: "string \<Rightarrow> string \<Rightarrow> bool" where
  "glob_search t s \<longleftrightarrow> (\<exists>i\<in>set [0..<Suc (length s)]. \<exists>j\<in>set [i..<Suc (length s)]. glob_matches t (take (j - i) (drop i s)))"

text \<open>How the glob compiler's output reads, character by character, in the engine.\<close>

definition glob_tok :: "char \<Rightarrow> tok list" where
  "glob_tok c =
     (if c = CHR ''*'' then [TAtom RxAny, TStar] else if c = CHR ''?'' then [TAtom RxAny]
      else if c = CHR ''+'' then [TPlus] else if c = CHR ''|'' then [TBar] else [TAtom (RxChar c)])"

definition glob_item :: "char \<Rightarrow> rx" where
  "glob_item c = (if c = CHR ''*'' then RxStar RxAny else if c = CHR ''?'' then RxAny else RxChar c)"

definition glob_rx :: "string \<Rightarrow> rx" where
  "glob_rx t = foldr (\<lambda>c acc. RxSeq (glob_item c) acc) t RxEmpty"

definition span :: "string \<Rightarrow> nat \<Rightarrow> nat \<Rightarrow> string" where
  "span s i j = take (j - i) (drop i s)"

text \<open>
  What \<open>RepeatMatcher\<close> (15.10.2.5) promises of a quantified atom: \<open>k\<close>
  successive matches of \<open>r\<close> cover the span \<open>[i, j)\<close>.
\<close>

primrec rx_times :: "bool \<Rightarrow> string \<Rightarrow> rx \<Rightarrow> nat \<Rightarrow> nat \<Rightarrow> nat \<Rightarrow> bool" where
  "rx_times ic s r 0 i j \<longleftrightarrow> j = i"
| "rx_times ic s r (Suc k) i j \<longleftrightarrow> (\<exists>l\<in>set [i..<Suc j]. rx_at ic s r i l \<and> rx_times ic s r k l j)"

section \<open>The engine computes the matches\<close>

declare rx_at.simps(10) [simp del] rx_ends.simps(10) [simp del]

lemma rx_at_bounds: "rx_at ic s r i j \<Longrightarrow> i \<le> length s \<Longrightarrow> i \<le> j \<and> j \<le> length s"
proof (induction ic s r i j rule: rx_at.induct)
  case (8 ic s a b i j)
  from "8.prems"(1) obtain k where k: "k \<in> set [i..<Suc j]" "rx_at ic s a i k" "rx_at ic s b k j" by auto
  with "8.IH"(1) [of k] "8.prems"(2) have "k \<le> length s" by simp
  with "8.IH"(2) [of k] k show ?case by simp
next
  case (10 ic s r i j)
  show ?case
  proof (cases "i = j")
    case False
    with "10.prems"(1) obtain k where k: "k \<in> set [Suc i..<Suc j]" "rx_at ic s r i k" "rx_at ic s (RxStar r) k j"
      by (auto simp: rx_at.simps(10) [of ic s r i j])
    with "10.IH"(1) [of k] "10.prems"(2) have "k \<le> length s" by simp
    with "10.IH"(2) [of k] k show ?thesis by simp
  qed (use "10.prems" in simp)
next
  case 1 then show ?case by simp next case 2 then show ?case by simp next case 3 then show ?case by simp
next case 4 then show ?case by simp next case 5 then show ?case by simp next case 6 then show ?case by simp
next case 7 then show ?case by simp next case (9 ic s a b i j) then show ?case by auto
next case 11 then show ?case by simp next case 12 then show ?case by simp
qed

lemma rx_ends_correct:
  "i \<le> length s \<Longrightarrow> j \<in> set (rx_ends ic s r i) \<longleftrightarrow> rx_at ic s r i j"
proof (induction ic s r i arbitrary: j rule: rx_ends.induct)
  case (8 ic s a b i)
  show ?case
  proof
    assume "j \<in> set (rx_ends ic s (RxSeq a b) i)"
    then obtain k where k: "k \<in> set (rx_ends ic s a i)" "j \<in> set (rx_ends ic s b k)" by auto
    from "8.IH"(1) [of k] "8.prems" k(1) have ak: "rx_at ic s a i k" by simp
    from rx_at_bounds [OF ak "8.prems"] have ik: "i \<le> k" "k \<le> length s" by simp_all
    from "8.IH"(2) [of k j] k ik(2) have bk: "rx_at ic s b k j" by simp
    from rx_at_bounds [OF bk ik(2)] have "k \<le> j" by simp
    with ak bk ik(1) show "rx_at ic s (RxSeq a b) i j"
      unfolding rx_at.simps(8) by (intro bexI [of _ k]) auto
  next
    assume "rx_at ic s (RxSeq a b) i j"
    then obtain k where ak: "rx_at ic s a i k" and bk: "rx_at ic s b k j" by auto
    from rx_at_bounds [OF ak "8.prems"] have ik: "k \<le> length s" by simp
    from "8.IH"(1) [of k] "8.prems" ak have k1: "k \<in> set (rx_ends ic s a i)" by simp
    from "8.IH"(2) [of k j] k1 ik bk have "j \<in> set (rx_ends ic s b k)" by simp
    with k1 show "j \<in> set (rx_ends ic s (RxSeq a b) i)" by auto
  qed
next
  case (10 ic s r i)
  show ?case
  proof
    assume "j \<in> set (rx_ends ic s (RxStar r) i)"
    then consider "j = i" | k where "k \<in> set (rx_ends ic s r i)" "i < k" "k \<le> length s"
      "j \<in> set (rx_ends ic s (RxStar r) k)"
      by (auto simp: rx_ends.simps(10) [of ic s r i] split: if_splits)
    then show "rx_at ic s (RxStar r) i j"
    proof cases
      case 1
      then show ?thesis by (simp add: rx_at.simps(10) [of ic s r i i])
    next
      case 2
      from "10.IH"(1) [of k] "10.prems" 2(1) have rk: "rx_at ic s r i k" by simp
      from "10.IH"(2) [of k j] 2 have sk: "rx_at ic s (RxStar r) k j" by simp
      from rx_at_bounds [OF sk 2(3)] have "k \<le> j" by simp
      with rk sk 2(2) show ?thesis
        unfolding rx_at.simps(10) [of ic s r i j] by (intro disjI2 bexI [of _ k]) auto
    qed
  next
    assume "rx_at ic s (RxStar r) i j"
    then consider "j = i" | k where "Suc i \<le> k" "k \<le> j" "rx_at ic s r i k" "rx_at ic s (RxStar r) k j"
      by (auto simp: rx_at.simps(10) [of ic s r i j])
    then show "j \<in> set (rx_ends ic s (RxStar r) i)"
    proof cases
      case 1
      then show ?thesis by (simp add: rx_ends.simps(10) [of ic s r i])
    next
      case 2
      from rx_at_bounds [OF 2(3) "10.prems"] have kl: "k \<le> length s" by simp
      from "10.IH"(1) [of k] "10.prems" 2(3) have k1: "k \<in> set (rx_ends ic s r i)" by simp
      from "10.IH"(2) [of k j] k1 kl 2 have "j \<in> set (rx_ends ic s (RxStar r) k)" by simp
      with k1 kl 2(1) show ?thesis
        unfolding rx_ends.simps(10) [of ic s r i] set_remdups set_concat set_map by auto
    qed
  qed
next
  case (9 ic s a b i)
  from "9.IH"(1) [of j] "9.IH"(2) [of j] "9.prems" show ?case by auto
next
  case (12 ic s p r i)
  have "rx_ends ic s r i \<noteq> [] \<longleftrightarrow> (\<exists>k\<in>set [i..<Suc (length s)]. rx_at ic s r i k)"
  proof
    assume "rx_ends ic s r i \<noteq> []"
    then obtain k where "k \<in> set (rx_ends ic s r i)" by (cases "rx_ends ic s r i") auto
    with "12.IH" "12.prems" have k: "rx_at ic s r i k" by simp
    from rx_at_bounds [OF k "12.prems"] have "k \<in> set [i..<Suc (length s)]" by auto
    with k show "\<exists>k\<in>set [i..<Suc (length s)]. rx_at ic s r i k" by blast
  next
    assume "\<exists>k\<in>set [i..<Suc (length s)]. rx_at ic s r i k"
    then obtain k where "rx_at ic s r i k" by blast
    with "12.IH" "12.prems" show "rx_ends ic s r i \<noteq> []" by auto
  qed
  then show ?case by auto
qed (simp_all add: at_boundary_def)

lemma rx_search_iff: "rx_search ic r s \<longleftrightarrow> (\<exists>i j. i \<le> length s \<and> rx_at ic s r i j)"
proof
  assume "rx_search ic r s"
  then have "\<exists>i\<in>set [0..<Suc (length s)]. rx_ends ic s r i \<noteq> []" by (simp only: rx_search_def)
  then obtain i where i: "i \<in> set [0..<Suc (length s)]" "rx_ends ic s r i \<noteq> []" by (rule bexE)
  from i(1) have "i < Suc (length s)" by (simp only: set_upt atLeastLessThan_iff)
  then have il: "i \<le> length s" by (rule less_Suc_eq_le [THEN iffD1])
  from i(2) have "hd (rx_ends ic s r i) \<in> set (rx_ends ic s r i)" by (rule list.set_sel(1))
  then have "rx_at ic s r i (hd (rx_ends ic s r i))" using rx_ends_correct [OF il] by simp
  with il show "\<exists>i j. i \<le> length s \<and> rx_at ic s r i j" by blast
next
  assume "\<exists>i j. i \<le> length s \<and> rx_at ic s r i j"
  then obtain i j where il: "i \<le> length s" and m: "rx_at ic s r i j" by blast
  from m have "j \<in> set (rx_ends ic s r i)" using rx_ends_correct [OF il] by simp
  then have "rx_ends ic s r i \<noteq> []" by auto
  moreover from il have "i < Suc (length s)" by (rule le_imp_less_Suc)
  then have "i \<in> set [0..<Suc (length s)]" by (simp only: set_upt atLeastLessThan_iff le0 simp_thms)
  ultimately show "rx_search ic r s" unfolding rx_search_def by blast
qed

text \<open>
  Inside the input the bound on the look-ahead's end is no restriction: a
  look-ahead succeeds, without consuming, exactly when its body matches (or,
  for \<open>(?!\<close>, does not match) some span from the position.
\<close>

lemma rx_at_look:
  assumes "i \<le> length s"
  shows "rx_at ic s (RxLook p r) i j \<longleftrightarrow> j = i \<and> (\<exists>k. rx_at ic s r i k) = p"
proof -
  have "(\<exists>k\<in>set [i..<Suc (length s)]. rx_at ic s r i k) \<longleftrightarrow> (\<exists>k. rx_at ic s r i k)"
    using rx_at_bounds [OF _ assms, of ic r] by (metis atLeastLessThan_iff le_imp_less_Suc set_upt)
  then show ?thesis by simp
qed

text \<open>
  The usual exclusion filter \<open>/^(?!body)/\<close> is found in a string exactly
  when the body matches no span at its start.
\<close>

lemma rx_search_exclusion:
  "rx_search ic (RxSeq RxBol (RxLook False r)) s \<longleftrightarrow> \<not> (\<exists>k. rx_at ic s r 0 k)"
proof -
  have "rx_at ic s (RxSeq RxBol (RxLook False r)) i j \<longleftrightarrow> i = 0 \<and> j = 0 \<and> \<not> (\<exists>k. rx_at ic s r 0 k)"
    if "i \<le> length s" for i j
  proof -
    have "rx_at ic s (RxSeq RxBol (RxLook False r)) i j \<longleftrightarrow> i = 0 \<and> rx_at ic s (RxLook False r) 0 j"
      by (auto simp del: upt_Suc)
    also have "\<dots> \<longleftrightarrow> i = 0 \<and> j = 0 \<and> \<not> (\<exists>k. rx_at ic s r 0 k)"
      using rx_at_look [of 0 s ic False r j] by auto
    finally show ?thesis .
  qed
  then show ?thesis unfolding rx_search_iff by auto
qed

section \<open>What the engine makes of a compiled glob\<close>

lemma esc_long_other: "c \<notin> set ''xuc0'' \<Longrightarrow> esc_long (c # cs) = None"
  by (simp add: esc_long_def)

lemma lazy_len_no_opt: "CHR ''?'' \<notin> set cs \<Longrightarrow> lazy_len cs = 0"
  by (cases cs) (auto simp: lazy_len_def)

lemma glob_char_no_opt: "CHR ''?'' \<notin> set (glob_char c)"
  by (simp add: glob_char_def glob_meta_def)

lemma glob_meta_tok:
  "\<forall>c\<in>set (CHR 0x5C # ''/{}()[]^$.''). c \<noteq> CHR ''*'' \<and> c \<noteq> CHR ''?'' \<and> c \<noteq> CHR ''+'' \<and>
     c \<noteq> CHR ''|'' \<and> esc_tok c = TAtom (RxChar c)"
  by code_simp

lemma lex_glob_char:
  assumes "CHR ''?'' \<notin> set rest"
  shows "lex (glob_char c @ rest) = glob_tok c @ lex rest"
proof -
  have lz: "lazy_len rest = 0" using assms by (rule lazy_len_no_opt)
  consider "c = CHR ''*''" | "c = CHR ''?''" | "glob_meta c" | "c \<noteq> CHR ''*''" "c \<noteq> CHR ''?''" "\<not> glob_meta c"
    by blast
  then show ?thesis
  proof cases
    case 1
    then show ?thesis by (simp add: glob_char_def glob_tok_def glob_meta_def simple_tok_def quant_tok_def lz)
  next
    case 2
    then show ?thesis by (simp add: glob_char_def glob_tok_def glob_meta_def simple_tok_def)
  next
    case 3
    then have "c \<in> set (CHR 0x5C # ''/{}()[]^$.'')" by (auto simp: glob_meta_def)
    with glob_meta_tok have "c \<noteq> CHR ''*'' \<and> c \<noteq> CHR ''?'' \<and> c \<noteq> CHR ''+'' \<and> c \<noteq> CHR ''|'' \<and>
        esc_tok c = TAtom (RxChar c)" by blast
    moreover from 3 have "c \<notin> set ''xuc0''" by (auto simp: glob_meta_def)
    ultimately show ?thesis using 3 by (simp add: glob_char_def glob_tok_def esc_long_other)
  next
    case 4
    then have "c \<noteq> CHR 0x5C" "c \<noteq> CHR ''(''" "c \<noteq> CHR ''[''" "c \<noteq> CHR ''{''" by (auto simp: glob_meta_def)
    moreover have "simple_tok c = (if c = CHR ''|'' then TBar else TAtom (RxChar c))"
      using 4 by (auto simp: simple_tok_def glob_meta_def)
    ultimately show ?thesis
      using 4 by (auto simp: glob_char_def glob_tok_def quant_tok_def lz)
  qed
qed

lemma lex_glob: "lex (concat (map glob_char t)) = concat (map glob_tok t)"
proof (induction t)
  case (Cons c t)
  have "CHR ''?'' \<notin> set (concat (map glob_char t))" by (simp add: glob_char_no_opt)
  with Cons show ?case by (simp add: lex_glob_char)
qed simp

lemma parse_glob:
  assumes "\<forall>c\<in>set t. c \<noteq> CHR ''+'' \<and> c \<noteq> CHR ''|''"
  shows "parse_toks (concat (map glob_tok t) @ ts) ((g, alts, sq) # st) =
           parse_toks ts ((g, alts, rev (map (\<lambda>c. (glob_item c, c \<noteq> CHR ''*'')) t) @ sq) # st)"
  using assms
proof (induction t arbitrary: sq)
  case (Cons c t)
  then show ?case by (auto simp: glob_tok_def glob_item_def)
qed simp

lemma seq_rx_rev: "seq_rx (rev xs) = foldr (\<lambda>x acc. RxSeq (fst x) acc) xs RxEmpty"
proof (induction xs)
  case (Cons x xs)
  have "seq_rx (rev (x # xs)) = RxSeq (fst x) (seq_rx (rev xs))"
    by (simp only: seq_rx_def rev.simps(2) foldl_append foldl_Cons foldl_Nil)
  with Cons.IH show ?case by (simp only: foldr_Cons o_apply)
qed (simp add: seq_rx_def)

lemma seq_rx_glob: "seq_rx (rev (map (\<lambda>c. (glob_item c, b c)) t)) = glob_rx t"
  unfolding seq_rx_rev glob_rx_def by (induction t) simp_all

theorem rx_parse_glob:
  assumes "CHR ''+'' \<notin> set t" and "CHR ''|'' \<notin> set t"
  shows "rx_parse (glob_regexp t) = POk (glob_rx t)"
proof -
  have "\<forall>c\<in>set t. c \<noteq> CHR ''+'' \<and> c \<noteq> CHR ''|''" using assms by blast
  from parse_glob [OF this, where ts = "[]" and g = None and alts = "[]" and sq = "[]" and st = "[]"] show ?thesis
    by (simp add: rx_parse_def glob_regexp_one_pass lex_glob frame_rx_def seq_rx_glob)
qed

text \<open>
  The parser reads its tokens one at a time: a prefix without unsupported
  tokens either fails or leaves the parser in some state for the rest.
\<close>

lemma parse_toks_step:
  "x \<noteq> TUnsup \<Longrightarrow> parse_toks (x # zs) st = PBad \<or> (\<exists>st'. parse_toks (x # zs) st = parse_toks zs st')"
  by (induction "x # zs" st rule: parse_toks.induct) auto

lemma parse_toks_prefix:
  "TUnsup \<notin> set xs \<Longrightarrow> parse_toks (xs @ ys) st = PBad \<or> (\<exists>st'. parse_toks (xs @ ys) st = parse_toks ys st')"
proof (induction xs arbitrary: st)
  case (Cons x xs)
  from Cons.prems have "x \<noteq> TUnsup" by auto
  from parse_toks_step [OF this, of "xs @ ys" st]
  consider "parse_toks (x # xs @ ys) st = PBad"
    | st' where "parse_toks (x # xs @ ys) st = parse_toks (xs @ ys) st'" by blast
  then show ?case
  proof cases
    case 1
    then show ?thesis by simp
  next
    case (2 st')
    with Cons.IH [of st'] Cons.prems show ?thesis by auto
  qed
qed auto

text \<open>A quantifier right after a quantifier is a syntax error (15.10.1: a quantifier follows an atom).\<close>

lemma parse_toks_plus_plus: "parse_toks (TPlus # TPlus # ys) st = PBad"
proof -
  have "parse_toks (TPlus # ys) ((g, alts, (r, False) # sq) # st0) = PBad" for g alts r sq st0 by simp
  then show ?thesis by (cases "(TPlus # TPlus # ys, st)" rule: parse_toks.cases) auto
qed

lemma glob_tok_supported: "TUnsup \<notin> set (concat (map glob_tok t))"
  by (auto simp: glob_tok_def)

lemma length_span [simp]: "j \<le> length s \<Longrightarrow> length (span s i j) = j - i"
  by (simp add: span_def)

lemma span_same [simp]: "span s i i = []"
  by (simp add: span_def)

lemma span_Cons: "i < j \<Longrightarrow> j \<le> length s \<Longrightarrow> span s i j = s ! i # span s (Suc i) j"
  by (simp add: span_def Cons_nth_drop_Suc [symmetric] take_Suc_Cons [symmetric] Suc_diff_Suc)

lemma take_span: "m \<le> j - i \<Longrightarrow> take m (span s i j) = span s i (i + m)"
  by (simp add: span_def min_def)

lemma drop_span: "m \<le> j - i \<Longrightarrow> drop m (span s i j) = span s (i + m) j"
  by (simp add: span_def drop_take add.commute diff_diff_add)

lemma rx_at_star_refl [simp]: "rx_at ic s (RxStar r) i i"
  by (simp add: rx_at.simps(10) [of ic s r i i])

lemma rx_at_any_star:
  "i \<le> j \<Longrightarrow> j \<le> length s \<Longrightarrow>
   rx_at ic s (RxStar RxAny) i j \<longleftrightarrow> (\<forall>x\<in>set (span s i j). \<not> js_line_term x)"
proof (induction "j - i" arbitrary: i)
  case 0
  then show ?case by simp
next
  case (Suc n)
  then have ij: "i < j" by simp
  have "rx_at ic s (RxStar RxAny) i j \<longleftrightarrow>
        \<not> js_line_term (s ! i) \<and> rx_at ic s (RxStar RxAny) (Suc i) j"
    using ij Suc.prems by (auto simp: rx_at.simps(10) [of ic s RxAny i j])
  also have "\<dots> \<longleftrightarrow> (\<forall>x\<in>set (span s i j). \<not> js_line_term x)"
    using Suc.hyps(1) [of "Suc i"] Suc.hyps(2) Suc.prems ij by (simp add: span_Cons)
  finally show ?case .
qed

lemma rx_at_glob_rx:
  "i \<le> j \<Longrightarrow> j \<le> length s \<Longrightarrow> rx_at True s (glob_rx t) i j \<longleftrightarrow> glob_matches t (span s i j)"
proof (induction t arbitrary: i)
  case Nil
  then show ?case by (auto simp: glob_rx_def simp flip: length_0_conv)
next
  case (Cons c t)
  have seq: "rx_at True s (glob_rx (c # t)) i j \<longleftrightarrow>
      (\<exists>k. i \<le> k \<and> k \<le> j \<and> rx_at True s (glob_item c) i k \<and> glob_matches t (span s k j))"
    using Cons.IH Cons.prems(2) by (auto simp: glob_rx_def)
  show ?case
  proof (cases "c = CHR ''*''")
    case True
    have "rx_at True s (glob_rx (c # t)) i j \<longleftrightarrow>
        (\<exists>k. i \<le> k \<and> k \<le> j \<and> (\<forall>x\<in>set (span s i k). \<not> js_line_term x) \<and> glob_matches t (span s k j))"
      using seq True Cons.prems rx_at_any_star [of i _ s True] by (auto simp: glob_item_def)
    also have "\<dots> \<longleftrightarrow> (\<exists>m\<in>set [0..<Suc (j - i)]. (\<forall>x\<in>set (span s i (i + m)). \<not> js_line_term x) \<and>
                     glob_matches t (span s (i + m) j))"
    proof
      assume "\<exists>k. i \<le> k \<and> k \<le> j \<and> (\<forall>x\<in>set (span s i k). \<not> js_line_term x) \<and> glob_matches t (span s k j)"
      then obtain k where "i \<le> k" "k \<le> j" "\<forall>x\<in>set (span s i k). \<not> js_line_term x" "glob_matches t (span s k j)"
        by blast
      then show "\<exists>m\<in>set [0..<Suc (j - i)]. (\<forall>x\<in>set (span s i (i + m)). \<not> js_line_term x) \<and>
                     glob_matches t (span s (i + m) j)"
        by (intro bexI [of _ "k - i"]) auto
    next
      assume "\<exists>m\<in>set [0..<Suc (j - i)]. (\<forall>x\<in>set (span s i (i + m)). \<not> js_line_term x) \<and>
                     glob_matches t (span s (i + m) j)"
      then obtain m where m: "m \<in> set [0..<Suc (j - i)]" "\<forall>x\<in>set (span s i (i + m)). \<not> js_line_term x"
          "glob_matches t (span s (i + m) j)" by blast
      from m(1) have "m \<le> j - i" by (simp only: set_upt atLeastLessThan_iff less_Suc_eq_le)
      with m(2,3) Cons.prems(1) show "\<exists>k. i \<le> k \<and> k \<le> j \<and> (\<forall>x\<in>set (span s i k). \<not> js_line_term x) \<and> glob_matches t (span s k j)"
        by (intro exI [of _ "i + m"]) auto
    qed
    also have "\<dots> \<longleftrightarrow> glob_matches (c # t) (span s i j)"
    proof -
      have len: "length (span s i j) = j - i" using Cons.prems by simp
      have td: "take m (span s i j) = span s i (i + m) \<and> drop m (span s i j) = span s (i + m) j"
        if "m \<in> set [0..<Suc (j - i)]" for m
      proof -
        from that have "m \<le> j - i" by (simp only: set_upt atLeastLessThan_iff less_Suc_eq_le)
        then show ?thesis by (simp add: take_span drop_span)
      qed
      show ?thesis
        unfolding glob_matches.simps(2) len if_P [OF True]
        by (rule bex_cong [OF refl]) (simp add: td)
    qed
    finally show ?thesis .
  next
    case False
    note nstar = this
    have item: "rx_at True s (glob_item c) i k \<longleftrightarrow> k = Suc i \<and> i < length s \<and>
        (if c = CHR ''?'' then \<not> js_line_term (s ! i) else char_eq True (s ! i) c)" for k
      using False by (simp add: glob_item_def)
    let ?P = "if c = CHR ''?'' then \<not> js_line_term (s ! i) else char_eq True (s ! i) c"
    have lhs: "rx_at True s (glob_rx (c # t)) i j \<longleftrightarrow>
        i < j \<and> i < length s \<and> ?P \<and> glob_matches t (span s (Suc i) j)"
      unfolding seq item by auto
    show ?thesis
    proof (cases "i < j")
      case True
      with Cons.prems have "span s i j = s ! i # span s (Suc i) j" by (simp add: span_Cons)
      with lhs True Cons.prems nstar show ?thesis by simp
    next
      case False
      with Cons.prems have "j = i" by simp
      with lhs nstar show ?thesis by simp
    qed
  qed
qed

lemma mem_upt_Suc: "x \<in> set [a..<Suc b] \<longleftrightarrow> a \<le> x \<and> x \<le> b"
  by auto

text \<open>A glob without \<open>+\<close> and \<open>|\<close> compiles (lines 100--105) to a source the engine accepts, and searching for it in a string, ignoring case, succeeds exactly when the glob in its wildcard reading matches a part of the string.\<close>

lemma glob_refines_wildcards:
  assumes "CHR ''+'' \<notin> set t" and "CHR ''|'' \<notin> set t"
  shows "rt_compiles es_rt (glob_regexp t) True \<and>
         (rt_search es_rt (glob_regexp t) True s \<longleftrightarrow> glob_search t s)"
proof -
  have p: "rx_parse (glob_regexp t) = POk (glob_rx t)" using assms by (rule rx_parse_glob)
  have "rx_search True (glob_rx t) s \<longleftrightarrow> (\<exists>i j. i \<le> j \<and> j \<le> length s \<and> glob_matches t (span s i j))"
    unfolding rx_search_iff
  proof
    assume "\<exists>i j. i \<le> length s \<and> rx_at True s (glob_rx t) i j"
    then obtain i j where m: "i \<le> length s" "rx_at True s (glob_rx t) i j" by blast
    from rx_at_bounds [OF m(2,1)] have "i \<le> j" "j \<le> length s" by simp_all
    moreover from this m(2) have "glob_matches t (span s i j)" by (simp add: rx_at_glob_rx)
    ultimately show "\<exists>i j. i \<le> j \<and> j \<le> length s \<and> glob_matches t (span s i j)" by blast
  next
    assume "\<exists>i j. i \<le> j \<and> j \<le> length s \<and> glob_matches t (span s i j)"
    then obtain i j where ij: "i \<le> j" "j \<le> length s" and g: "glob_matches t (span s i j)" by blast
    from ij g have "rx_at True s (glob_rx t) i j" by (simp add: rx_at_glob_rx)
    moreover from ij have "i \<le> length s" by simp
    ultimately show "\<exists>i j. i \<le> length s \<and> rx_at True s (glob_rx t) i j" by blast
  qed
  also have "\<dots> \<longleftrightarrow> glob_search t s"
    unfolding glob_search_def span_def Bex_def mem_upt_Suc by (meson le0 le_trans)
  finally show ?thesis using p by (simp add: es_rt_def)
qed

text \<open>The engine's \<open>search\<close>, computed by \<open>rx_ends\<close>, finds a match exactly when some span of the input matches the parsed expression in the sense of ECMA-262.\<close>

lemma es_search_semantics:
  "rt_search es_rt src ic str \<longleftrightarrow>
     (case rx_parse src of POk r \<Rightarrow> \<exists>i j. i \<le> length str \<and> rx_at ic str r i j | _ \<Rightarrow> False)"
  by (simp add: es_rt_def rx_search_iff split: pres.split)


text \<open>C10: \<open>+\<close> is not escaped in a glob (line 101): every comma-free glob (not an explicit expression) whose trimmed text contains \<open>++\<close> does not compile, so the compiler throws \<open>SyntaxError\<close> and a filter with it fails to load.\<close>

theorem glob_double_plus_rejected:
  assumes "explicit_attempt es_rt (js_trim t) = None" and "CHR '','' \<notin> set t"
    and "js_trim t = u @ ''++'' @ v"
  shows "make_regs es_rt t rs = (rs, Some SyntaxError)"
proof -
  let ?g = "concat (map glob_char (js_trim t))"
  have "lex ?g = concat (map glob_tok (u @ ''++'' @ v))"
    by (simp only: assms(3) lex_glob)
  then have toks: "lex ?g = concat (map glob_tok u) @ TPlus # TPlus # concat (map glob_tok v)"
    by (simp add: glob_tok_def)
  have "parse_toks (concat (map glob_tok u) @ TPlus # TPlus # concat (map glob_tok v)) [(None, [], [])] = PBad"
    using parse_toks_prefix [OF glob_tok_supported, of u "TPlus # TPlus # concat (map glob_tok v)" "[(None, [], [])]"]
    by (auto simp: parse_toks_plus_plus)
  then have nc: "\<not> rt_compiles es_rt ?g True" by (simp add: es_rt_def rx_parse_def toks)
  have ne: "?g \<noteq> []" using assms(3) by simp
  have "CHR '','' \<notin> set (js_trim t)" using assms(2) set_js_trim by blast
  then have "js_split CHR '','' (js_trim t) = [js_trim t]" by simp
  with assms(1) nc ne show ?thesis
    by (simp add: make_regs.simps [of es_rt t] Let_def glob_regexp_one_pass)
qed

section \<open>Counted quantifiers\<close>

lemma rx_at_seq_iff: "rx_at ic s (RxSeq a b) i j \<longleftrightarrow> (\<exists>k. i \<le> k \<and> k \<le> j \<and> rx_at ic s a i k \<and> rx_at ic s b k j)"
  by (auto simp: mem_upt_Suc)

lemma rx_at_le: "rx_at ic s r i j \<Longrightarrow> i \<le> j"
proof (induction ic s r i j rule: rx_at.induct)
  case (8 ic s a b i j)
  from "8.prems" obtain k where "k \<in> set [i..<Suc j]" by auto
  then show ?case by simp
next
  case (9 ic s a b i j)
  from "9.prems" have "rx_at ic s a i j \<or> rx_at ic s b i j" by simp
  then show ?case using "9.IH" by blast
next
  case (10 ic s r i j)
  from "10.prems" have "i = j \<or> (\<exists>k\<in>set [Suc i..<Suc j]. True)"
    unfolding rx_at.simps(10) [of ic s r i j] by blast
  then show ?case by auto
qed simp_all

lemma rx_times_le: "rx_times ic s r k i j \<Longrightarrow> i \<le> j"
  by (induction k arbitrary: i) (auto simp: mem_upt_Suc)

lemma rx_times_Suc_iff:
  "rx_times ic s r (Suc k) i j \<longleftrightarrow> (\<exists>l. i \<le> l \<and> l \<le> j \<and> rx_at ic s r i l \<and> rx_times ic s r k l j)"
  by (auto simp: mem_upt_Suc)

lemma rx_at_rep:
  "rx_at ic s (rx_rep n r t) i j \<longleftrightarrow> (\<exists>l. i \<le> l \<and> l \<le> j \<and> rx_times ic s r n i l \<and> rx_at ic s t l j)"
proof (induction n arbitrary: i)
  case 0
  then show ?case by (auto dest: rx_at_le)
next
  case (Suc n)
  have "rx_at ic s (rx_rep (Suc n) r t) i j \<longleftrightarrow>
        (\<exists>k. i \<le> k \<and> k \<le> j \<and> rx_at ic s r i k \<and>
             (\<exists>l. k \<le> l \<and> l \<le> j \<and> rx_times ic s r n k l \<and> rx_at ic s t l j))"
    by (simp only: rx_rep.simps rx_at_seq_iff Suc.IH)
  also have "\<dots> \<longleftrightarrow> (\<exists>l. i \<le> l \<and> l \<le> j \<and> rx_times ic s r (Suc n) i l \<and> rx_at ic s t l j)"
    unfolding rx_times_Suc_iff by (meson order_trans)
  finally show ?case .
qed

lemma rx_at_upto:
  "rx_at ic s (rx_upto m r) i j \<longleftrightarrow> (\<exists>k\<le>m. rx_times ic s r k i j)"
proof (induction m arbitrary: i)
  case 0
  then show ?case by auto
next
  case (Suc m)
  have "rx_at ic s (rx_upto (Suc m) r) i j \<longleftrightarrow>
        (\<exists>l. i \<le> l \<and> l \<le> j \<and> rx_at ic s r i l \<and> (\<exists>k\<le>m. rx_times ic s r k l j)) \<or> j = i"
    by (simp only: rx_upto.simps rx_at.simps(9) rx_at.simps(1) rx_at_seq_iff Suc.IH)
  also have "\<dots> \<longleftrightarrow> (\<exists>k\<le>Suc m. rx_times ic s r k i j)"
  proof
    assume "(\<exists>l. i \<le> l \<and> l \<le> j \<and> rx_at ic s r i l \<and> (\<exists>k\<le>m. rx_times ic s r k l j)) \<or> j = i"
    then show "\<exists>k\<le>Suc m. rx_times ic s r k i j"
    proof
      assume "\<exists>l. i \<le> l \<and> l \<le> j \<and> rx_at ic s r i l \<and> (\<exists>k\<le>m. rx_times ic s r k l j)"
      then obtain l k where "i \<le> l" "l \<le> j" "rx_at ic s r i l" "k \<le> m" "rx_times ic s r k l j" by blast
      then have "rx_times ic s r (Suc k) i j" "Suc k \<le> Suc m" unfolding rx_times_Suc_iff by blast+
      then show ?thesis by blast
    qed (intro exI [of _ 0], simp)
  next
    assume "\<exists>k\<le>Suc m. rx_times ic s r k i j"
    then obtain k where k: "k \<le> Suc m" "rx_times ic s r k i j" by blast
    show "(\<exists>l. i \<le> l \<and> l \<le> j \<and> rx_at ic s r i l \<and> (\<exists>k\<le>m. rx_times ic s r k l j)) \<or> j = i"
    proof (cases k)
      case 0
      then show ?thesis using k by simp
    next
      case (Suc k')
      then show ?thesis using k by (auto simp: rx_times_Suc_iff)
    qed
  qed
  finally show ?case .
qed

lemma rx_times_star: "rx_times ic s r k i j \<Longrightarrow> rx_at ic s (RxStar r) i j"
proof (induction k arbitrary: i)
  case 0
  then show ?case by simp
next
  case (Suc k)
  then obtain l where l: "i \<le> l" "l \<le> j" "rx_at ic s r i l" "rx_times ic s r k l j"
    by (auto simp: rx_times_Suc_iff)
  from l(4) have st: "rx_at ic s (RxStar r) l j" by (rule Suc.IH)
  show ?case
  proof (cases "l = i")
    case True
    with st show ?thesis by simp
  next
    case False
    with l(1) have "Suc i \<le> l" by simp
    with l(2) have "l \<in> set [Suc i..<Suc j]" unfolding mem_upt_Suc by simp
    with l(3) st show ?thesis by (auto simp: rx_at.simps(10) [of ic s r i j])
  qed
qed

lemma rx_star_times: "rx_at ic s (RxStar r) i j \<Longrightarrow> \<exists>k. rx_times ic s r k i j"
proof (induction "j - i" arbitrary: i rule: less_induct)
  case less
  show ?case
  proof (cases "i = j")
    case True
    then show ?thesis by (intro exI [of _ 0]) simp
  next
    case False
    with less.prems obtain l where l: "Suc i \<le> l" "l \<le> j" "rx_at ic s r i l" "rx_at ic s (RxStar r) l j"
      by (auto simp: rx_at.simps(10) [of ic s r i j] mem_upt_Suc)
    then have "j - l < j - i" by simp
    then obtain k where k: "rx_times ic s r k l j" using less.hyps l(4) by blast
    have "i \<le> l" using l(1) by simp
    then have "rx_times ic s r (Suc k) i j" unfolding rx_times_Suc_iff using l(2,3) k by blast
    then show ?thesis by blast
  qed
qed

lemma rx_times_add:
  "rx_times ic s r (a + b) i j \<longleftrightarrow> (\<exists>l. i \<le> l \<and> l \<le> j \<and> rx_times ic s r a i l \<and> rx_times ic s r b l j)"
proof (induction a arbitrary: i)
  case 0
  then show ?case by (auto dest: rx_times_le)
next
  case (Suc a)
  show ?case
    unfolding add_Suc rx_times_Suc_iff Suc.IH by (meson order_trans rx_times_le)
qed

text \<open>the counted quantifiers of a source: \<open>r{n,m}\<close> matches a span exactly when between \<open>n\<close> and \<open>max n m\<close> successive matches of \<open>r\<close> cover it (the lexer rejects \<open>m < n\<close>), and \<open>r{n,}\<close> when at least \<open>n\<close> do.\<close>

theorem quantify_counted:
  "(rx_at ic s (quantify (TCount n (Some m)) r) i j \<longleftrightarrow>
      (\<exists>k. n \<le> k \<and> k \<le> max n m \<and> rx_times ic s r k i j)) \<and>
   (rx_at ic s (quantify (TCount n None) r) i j \<longleftrightarrow> (\<exists>k. n \<le> k \<and> rx_times ic s r k i j))"
proof
  have "rx_at ic s (quantify (TCount n (Some m)) r) i j \<longleftrightarrow>
        (\<exists>l. i \<le> l \<and> l \<le> j \<and> rx_times ic s r n i l \<and> (\<exists>k'\<le>m - n. rx_times ic s r k' l j))"
    by (simp add: rx_at_rep rx_at_upto)
  also have "\<dots> \<longleftrightarrow> (\<exists>k'\<le>m - n. rx_times ic s r (n + k') i j)"
    unfolding rx_times_add by blast
  also have "\<dots> \<longleftrightarrow> (\<exists>k. n \<le> k \<and> k \<le> max n m \<and> rx_times ic s r k i j)"
  proof
    assume "\<exists>k'\<le>m - n. rx_times ic s r (n + k') i j"
    then obtain k' where "k' \<le> m - n" "rx_times ic s r (n + k') i j" by blast
    then show "\<exists>k. n \<le> k \<and> k \<le> max n m \<and> rx_times ic s r k i j"
      by (intro exI [of _ "n + k'"]) auto
  next
    assume "\<exists>k. n \<le> k \<and> k \<le> max n m \<and> rx_times ic s r k i j"
    then obtain k where "n \<le> k" "k \<le> max n m" "rx_times ic s r k i j" by blast
    then show "\<exists>k'\<le>m - n. rx_times ic s r (n + k') i j"
      by (intro exI [of _ "k - n"]) auto
  qed
  finally show "rx_at ic s (quantify (TCount n (Some m)) r) i j \<longleftrightarrow>
      (\<exists>k. n \<le> k \<and> k \<le> max n m \<and> rx_times ic s r k i j)" .
next
  have "rx_at ic s (quantify (TCount n None) r) i j \<longleftrightarrow>
        (\<exists>l. i \<le> l \<and> l \<le> j \<and> rx_times ic s r n i l \<and> (\<exists>k'. rx_times ic s r k' l j))"
    by (auto simp: rx_at_rep dest: rx_star_times intro: rx_times_star)
  also have "\<dots> \<longleftrightarrow> (\<exists>k'. rx_times ic s r (n + k') i j)"
    unfolding rx_times_add by blast
  also have "\<dots> \<longleftrightarrow> (\<exists>k. n \<le> k \<and> rx_times ic s r k i j)"
    by (metis le_add1 le_add_diff_inverse)
  finally show "rx_at ic s (quantify (TCount n None) r) i j \<longleftrightarrow> (\<exists>k. n \<le> k \<and> rx_times ic s r k i j)" .
qed

theorem glob_double_plus_rejected_witness:
  "explicit_attempt es_rt (js_trim ''c++'') = None \<and> js_trim ''c++'' = ''c'' @ ''++'' @ [] \<and>
   make_regs es_rt ''c++'' [] = ([], Some SyntaxError)"
proof -
  have t: "js_trim ''c++'' = ''c++''"
    by (rule js_trim_id) (simp_all add: js_space_def js_line_term_def)
  have e: "explicit_attempt es_rt (js_trim ''c++'') = None" by (simp add: t explicit_attempt_def)
  show ?thesis using glob_double_plus_rejected [OF e, of "''c''" "[]" "[]"] e t by simp
qed

end
