(* ===== verification/Spec2Isabelle.thy ===== *)
theory Spec2Isabelle
  imports FilterManager JsRegExp
begin

text \<open>
  \<^bold>\<open>Verification development of the DownThemAll! filter manager\<close>
  (\<open>src/www-client/firefox-bin/files/firefox-bin-3.6.16/extensions/{DDC359D1-844A-42a7-9AA1-88A850A938A8}/components/filterManager.js\<close>,
  the only source file of the repository).

  \<^bold>\<open>The program.\<close>  A filter (\<open>Filter\<close>, lines 28--214) is a label, an
  active flag, a category bitmask and a pattern text, compiled by
  \<open>_makeRegs\<close> (lines 68--107) into regular expressions: \<open>/body/\<close> or
  \<open>/body/i\<close> is an explicit expression, a comma separates alternatives, any
  other text is a glob whose metacharacters are escaped and whose \<open>*\<close> and
  \<open>?\<close> become \<open>.*\<close> and \<open>.\<close>.  Filters live in the Mozilla preference store
  under \<open>extensions.dta.filters.<id>.{label,test,type,active}\<close>.  The manager
  (\<open>FilterManager\<close>, lines 248--460) observes that branch: every change arms
  a 100 ms one-shot timer unless a reload is already pending
  (\<open>_delayedReload\<close>), and the timer's \<open>reload\<close> rebuilds \<open>_all\<close> (sorted),
  \<open>_active\<close> and \<open>_filters\<close> from the store and notifies observers.  Clients
  query (\<open>getFilter\<close>, \<open>matchActive\<close>, the enumerators of lines 223--246),
  act on filter objects (setters, \<open>save\<close>, \<open>restore\<close>, \<open>remove\<close>) or call
  \<open>create\<close>, \<open>remove\<close>, \<open>save\<close> and \<open>getTmpFromString\<close>; every change goes
  through the store and comes back as a reload.

  \<^bold>\<open>Theories.\<close>
  \<^item> \<open>Prelude\<close>: the JavaScript runtime the code relies on (\<open>trim\<close>, \<open>split\<close>,
    \<open>toLowerCase\<close>, \<open>ToBoolean\<close>, the stable \<open>Array.sort\<close> as
    \<open>js_sort\<close>), exceptions \<open>js_exn\<close>, outcomes \<open>'s js_outcome\<close> (the state
    after the statement and the exception that escaped, if any), preference
    values \<open>pval\<close>, and shared list lemmas (among them: \<open>js_sort\<close> with a
    comparator that is negative exactly below a key is \<open>sort_key\<close>).
  \<^item> \<open>PatternCompiler\<close>: \<open>make_regs\<close> is \<open>_makeRegs\<close> with the regs pushed
    so far and the exception that escaped; the regular-expression engine is
    an interface \<open>regexp_rt\<close> (does \<open>new RegExp\<close> throw, does \<open>search\<close> find),
    so the compiler's lemmas hold for every engine.
  \<^item> \<open>Prefs\<close>: the preference store (default and user layers, \<open>get\<close>, \<open>set\<close>,
    \<open>hasUserValue\<close>, \<open>resetBranch\<close>, \<open>getChildren\<close>), modelled from the spec
    since \<open>preferences.jsm\<close> is not in the repository, and the interface
    \<open>'s store_ops\<close> through which filters write.
  \<^item> \<open>JsNumber\<close>: \<open>ToInt32\<close>, which \<open>i.type & type\<close> applies to the
    stored category, with \<open>ToNumber\<close> on strings (\<open>str_to_num\<close>: white
    space, hexadecimal, decimal with fraction and exponent, \<open>Infinity\<close>,
    \<open>NaN\<close>) and the correctly rounded IEEE double (\<open>dbl_round\<close>, ties to
    even, subnormals and overflow to \<open>Infinity\<close>), over binary integers.
  \<^item> \<open>DtaFilter\<close>: the record \<open>dta_filter\<close> and each method of \<open>Filter\<close>.
  \<^item> \<open>FilterManager\<close>: the system state \<open>sys\<close> (store, heap of filter
    objects, manager fields \<open>fm\<close>, notifications), the observer
    (\<open>sys_store\<close> attaches \<open>notify_change\<close> to every write), \<open>reload\<close>, the
    queries, the operations, the events a run is made of and the inductive
    \<open>reachable\<close>; its invariant \<open>sys_inv\<close> is kept by every event, and so is
    \<open>lists_ok\<close> (\<open>_count\<close>, \<open>_all\<close> without repetition, \<open>_active\<close> a
    subsequence of \<open>_all\<close>).  \<open>fm_register\<close> is \<open>register\<close> (lines
    449--459): whether \<open>Preferences.addObserver\<close> succeeded is a parameter
    of \<open>EvInit\<close>, and the flag \<open>fm_observing\<close> it sets decides whether
    \<open>notify_change\<close> sees the store's writes.  \<open>fe_query_interface\<close> is the
    enumerators' \<open>QueryInterface\<close> (lines 227--236).
  \<^item> \<open>JsRegExp\<close>: the ECMA-262 engine for the patterns the compiler emits
    and for explicit expressions with classes, counted quantifiers and
    look-ahead (\<open>rx_search_exclusion\<close>: \<open>/^(?!body)/\<close> is found exactly
    when the body matches nowhere at the start):
    lexer, parser, the span semantics \<open>rx_at\<close>, the executable \<open>rx_ends\<close>
    proved equal to it, \<open>es_rt\<close>, the engine as a \<open>regexp_rt\<close>, and
    \<open>quantify_counted\<close>: \<open>r{n,m}\<close> means \<open>n\<close> to \<open>m\<close> successive matches
    (\<open>rx_times\<close>).
  \<^item> this theory: a store holding the specification's examples, the
    properties that span the components, and the witnesses that instantiate
    every property with hypotheses on that store.

  \<^bold>\<open>What is shown.\<close>  Every property is stated for all inputs, or
  for all reachable states; the concrete store below only serves the
  witnesses.  Reachable states keep the invariant (C1); a reload computes
  exactly the sorted loaded filters and notifies once (C2), its sort is the
  stable sort by a key (C3); bursts of changes coalesce into one reload (C4)
  and a pending reload always happens at the next timer (C5); a glob filter
  matches exactly by the wildcard reading of its glob (C6), proved through
  the engine's parse of the compiled source and the equivalence of
  \<open>rx_ends\<close> with the standard's semantics; queries are sound on reachable
  states (C7, C8, C26); save and load round-trip (C9); the compiler's cases
  (C11--C16) and each filter method's behaviour, errors included
  (C17--C25).  Reachable states keep the manager's lists consistent and
  bounded (C29), and every \<open>RegExp\<close> a filter holds is one the engine
  accepted (C30).  A category stored as a string of digits loads as
  JavaScript reads it, wrapping modulo \<open>2^32\<close> (C31); an explicit expression
  matches by the ECMA-262 meaning of its body (C32).

  C10, C14, C15, C19, C22, C25, C27, C28, C33 and C34 record where the code
  departs from its specification or does what it does not mean to: a glob
  with \<open>++\<close> never compiles (C10); the closing slash of an explicit
  expression is optional (C14) and its empty-body branch is dead (C15); a
  filter without a \<open>test\<close> key loads and then throws in \<open>match\<close> (C27);
  \<open>_active\<close> goes stale when a filter object is deactivated (C28); when
  \<open>addObserver\<close> fails the manager never reloads again after its first
  reload (C33); \<open>create\<close> accepts an empty label, and the reload then drops
  the filter (C34).

  \<^bold>\<open>Bounds and fuel.\<close>  No definition uses fuel: the compiler terminates
  by the number of commas, then of parts; \<open>lex\<close> by the length of the
  source; \<open>rx_at\<close> and \<open>rx_ends\<close> by the size of the expression, then the
  distance to the end of the span or input.  \<open>fe_take n\<close> is a client
  calling \<open>getNext\<close> \<open>n\<close> times; \<open>n = count\<close> is the number that drains it.
  Integers: the category is a 32-bit word (\<open>ToInt32\<close> of the stored value,
  wrapping modulo \<open>2^32\<close> as C31 shows); only \<open>AND\<close> is applied to it.
  Magnitudes in \<open>JsNumber\<close> are \<open>int\<close>, so that witnesses evaluate in
  binary; the double's significand has 53 bits and its exponent is bounded
  below by \<open>-1074\<close> and above by the overflow test.

  \<^bold>\<open>Not modelled.\<close>  XPCOM registration (\<open>implementComponent\<close>,
  \<open>NSGetModule\<close>, lines 461--472: the component's class id, contract id
  and interface list, plumbing with no state of the manager), the debug logging and the observer
  enumeration in \<open>reload\<close> (lines 350--354, output only), the string-bundle
  loading of \<open>init\<close> (its result, the localized labels, is a parameter of
  \<open>EvInit\<close>), and the UUID generator (its output is a parameter of
  \<open>fm_create\<close>).  Timers are counted, not timed: a timer fires when the
  environment chooses \<open>EvTimer\<close>.  The engine covers the fragment described
  in \<open>JsRegExp\<close>; back references, octal escapes, \<open>\u\<close> above
  \<open>0xFF\<close> (characters are Latin-1 here) and a stray \<open>{ } ]\<close> parse to
  \<open>PUnsup\<close> and no theorem is stated about them.  The category is kept as its \<open>ToInt32\<close> value from load on, so
  \<open>save\<close> writes it back as an integer even if the store held a string
  (the code writes the raw value back).
  Characters are Latin-1 code units.
\<close>

section \<open>A store to run the system on\<close>

text \<open>
  The example of the specification's sorting property: two default filters
  (\<open>deffilter-b\<close> active, \<open>deffilter-a\<close> not) and two user filters labelled
  \<open>Zeta\<close> and \<open>alpha\<close>; \<open>broken_prefs\<close> adds a user filter \<open>u3\<close> whose
  expression was never stored.
\<close>

definition fkey :: "string \<Rightarrow> string \<Rightarrow> string" where
  "fkey i k = BASE @ i @ CHR ''.'' # k"

definition fixture_prefs :: prefs where
  "fixture_prefs =
     \<lparr>pr_default =
        [(fkey ''deffilter-b'' ''label'', PStr ''Bee''), (fkey ''deffilter-b'' ''test'', PStr ''*.b''),
         (fkey ''deffilter-b'' ''active'', PBool True), (fkey ''deffilter-b'' ''type'', PInt 1),
         (fkey ''deffilter-a'' ''label'', PStr ''Aye''), (fkey ''deffilter-a'' ''test'', PStr ''*.a''),
         (fkey ''deffilter-a'' ''active'', PBool False), (fkey ''deffilter-a'' ''type'', PInt 2)],
      pr_user =
        [(fkey ''u1'' ''label'', PStr ''Zeta''), (fkey ''u1'' ''test'', PStr ''*.zip''),
         (fkey ''u1'' ''active'', PBool True), (fkey ''u1'' ''type'', PInt 1),
         (fkey ''u2'' ''label'', PStr ''alpha''), (fkey ''u2'' ''test'', PStr ''*.jpg''),
         (fkey ''u2'' ''active'', PBool True), (fkey ''u2'' ''type'', PInt 2)]\<rparr>"

definition broken_prefs :: prefs where
  "broken_prefs =
     fixture_prefs\<lparr>pr_user := pr_user fixture_prefs @
       [(fkey ''u3'' ''label'', PStr ''untested''), (fkey ''u3'' ''active'', PBool True),
        (fkey ''u3'' ''type'', PInt 2)]\<rparr>"


definition inited_sys :: sys where
  "inited_sys = run es_rt (sys0 fixture_prefs) [EvInit (\<lambda>_. None) True]"

definition loaded_sys :: sys where
  "loaded_sys = run es_rt (sys0 fixture_prefs) [EvInit (\<lambda>_. None) True, EvTimer]"

definition sample_filter :: dta_filter where
  "sample_filter =
     (new_filter (BASE @ ''u1''))\<lparr>f_label := ''Zeta'', f_active := True, f_type := 1,
        f_expr := Some ''*.zip'', f_regs := Some [RegExp (glob_regexp ''*.zip'') True], f_modified := True\<rparr>"

section \<open>Properties across the components\<close>

text \<open>C6: a filter whose expression is a glob without \<open>+\<close>, \<open>|\<close> and commas (and not an explicit expression) matches a string exactly when the string is not empty and the trimmed glob, read with \<open>*\<close> as any sequence and \<open>?\<close> as any character ignoring case, matches a part of it.\<close>

theorem glob_filter_matches:
  assumes "regs_consistent es_rt f" and "f_expr f = Some t"
    and "explicit_attempt es_rt (js_trim t) = None" and "CHR '','' \<notin> set t" and "js_trim t \<noteq> []"
    and "CHR ''+'' \<notin> set t" and "CHR ''|'' \<notin> set t"
  shows "filter_match es_rt f str = Inr (str \<noteq> [] \<and> glob_search (js_trim t) str)"
proof -
  have tr: "CHR ''+'' \<notin> set (js_trim t)" "CHR ''|'' \<notin> set (js_trim t)"
    using set_js_trim assms(6,7) by blast+
  have "rx_parse (glob_regexp (js_trim t)) = POk (glob_rx (js_trim t))" using tr by (rule rx_parse_glob)
  then have c: "rt_compiles es_rt (concat (map glob_char (js_trim t))) True"
    by (simp add: es_rt_def glob_regexp_one_pass)
  have "make_regs es_rt t [] = ([RegExp (concat (map glob_char (js_trim t))) True], None)"
    using make_regs_glob_text [OF assms(3-5) c, of "[]"] by simp
  then have "f_regs f = Some [RegExp (glob_regexp (js_trim t)) True]"
    using assms(1,2) by (simp add: regs_consistent_def glob_regexp_one_pass)
  then show ?thesis
    using glob_refines_wildcards [OF tr, of str] by (simp add: filter_match_def)
qed

section \<open>Witnesses\<close>

text \<open>C32: a filter whose expression is an explicit \<open>/body/\<close> or \<open>/body/i\<close> that the engine parses matches a non-empty string exactly when, in the sense of ECMA-262 (with the flag the expression carries), the parsed body matches a span of it; with \<open>quantify_counted\<close> this gives the meaning of classes and counted quantifiers in such expressions.\<close>

theorem explicit_filter_matches:
  assumes "regs_consistent es_rt f" and "f_expr f = Some e"
    and "explicit_regexp (js_trim e) = Some (b, ci)" and "2 < length (js_trim e)" and "rx_parse b = POk r"
  shows "filter_match es_rt f str = Inr (str \<noteq> [] \<and> (\<exists>i j. i \<le> length str \<and> rx_at ci str r i j))"
proof -
  have "rt_compiles es_rt b ci" using assms(5) by (simp add: es_rt_def)
  then have "explicit_attempt es_rt (js_trim e) = Some (Some (RegExp b ci))"
    using explicit_attempt_slash [OF assms(3,4)] by simp
  then have "make_regs es_rt e [] = ([RegExp b ci], None)"
    by (simp add: make_regs.simps [of es_rt e] Let_def)
  then have "f_regs f = Some [RegExp b ci]" using assms(1,2) by (simp add: regs_consistent_def)
  then show ?thesis using assms(5) by (simp add: filter_match_def es_rt_def rx_search_iff)
qed

lemma loaded_sys_steps:
  "loaded_sys = sys_event es_rt (sys_event es_rt (sys0 fixture_prefs) (EvInit (\<lambda>_. None) True)) EvTimer"
  by (simp add: loaded_sys_def run_def)

lemma inited_sys_step: "inited_sys = sys_event es_rt (sys0 fixture_prefs) (EvInit (\<lambda>_. None) True)"
  by (simp add: inited_sys_def run_def)

lemma reachable_inited: "reachable es_rt inited_sys"
  unfolding inited_sys_step by (intro reachable.step reachable.start)

lemma reachable_loaded: "reachable es_rt loaded_sys"
  unfolding loaded_sys_steps by (intro reachable.step reachable.start)

lemma loaded_sys_quiet:
  "fm_loaded (s_fm loaded_sys) \<and> \<not> fm_must_reload (s_fm loaded_sys) \<and> fm_timers (s_fm loaded_sys) = 0 \<and>
   fm_get_filter loaded_sys ''u1'' = Inr (FilterRef 0) \<and> fm_filters (s_fm loaded_sys) ''u1'' = Some 0"
  by code_simp

theorem reachable_invariant_witness:
  "reachable es_rt loaded_sys \<and> set (fm_active (s_fm loaded_sys)) \<subseteq> set (fm_all (s_fm loaded_sys)) \<and>
   (\<exists>f. s_heap loaded_sys 0 = Some f \<and> filter_id f = ''u1'')"
  using reachable_invariant [OF reachable_loaded] reachable_loaded loaded_sys_quiet by blast

theorem reload_result_witness:
  "fm_must_reload (s_fm inited_sys) \<and>
   map (\<lambda>a. the (s_heap (fm_reload es_rt inited_sys) a)) (fm_all (s_fm (fm_reload es_rt inited_sys))) =
     sort_key filter_key (loaded_filters es_rt inited_sys)"
proof -
  have m: "fm_must_reload (s_fm inited_sys)" by code_simp
  show ?thesis using reload_result [OF m] m by simp
qed

theorem burst_single_reload_witness:
  "\<not> fm_must_reload (s_fm loaded_sys) \<and> fm_timers (s_fm loaded_sys) = 0 \<and>
   (let s' = run es_rt loaded_sys (map (\<lambda>(k, v). EvPrefSet k v)
               [(fkey ''u1'' ''label'', PStr ''Z''), (fkey ''u2'' ''label'', PStr ''A'')] @ [EvTimer]) in
      s_notified s' \<le> Suc (s_notified loaded_sys) \<and> fm_timers (s_fm s') = 0 \<and> \<not> fm_must_reload (s_fm s'))"
  using burst_single_reload [of loaded_sys es_rt "[(fkey ''u1'' ''label'', PStr ''Z''), (fkey ''u2'' ''label'', PStr ''A'')]"]
    loaded_sys_quiet by simp

theorem burst_two_writes_one_notification:
  "s_notified (run es_rt loaded_sys [EvPrefSet (fkey ''u1'' ''label'') (PStr ''Z''),
      EvPrefSet (fkey ''u2'' ''label'') (PStr ''A''), EvTimer]) = Suc (s_notified loaded_sys)"
  by code_simp

theorem pending_reload_runs_witness:
  "reachable es_rt inited_sys \<and> fm_must_reload (s_fm inited_sys) \<and>
   \<not> fm_must_reload (s_fm (sys_event es_rt inited_sys EvTimer))"
proof -
  have m: "fm_must_reload (s_fm inited_sys)" by code_simp
  show ?thesis using pending_reload_runs [OF reachable_inited m] reachable_inited m by simp
qed

theorem get_filter_sound_witness:
  "reachable es_rt loaded_sys \<and> fm_get_filter loaded_sys ''u1'' = Inr (FilterRef 0) \<and>
   (\<exists>f. s_heap loaded_sys 0 = Some f \<and> filter_id f = ''u1'')"
  using get_filter_sound [OF reachable_loaded, of "''u1''" 0] reachable_loaded loaded_sys_quiet by auto

lemma loaded_sys_exprs:
  "\<forall>a\<in>set (fm_active (s_fm loaded_sys)). \<exists>f. s_heap loaded_sys a = Some f \<and> f_expr f \<noteq> None"
proof -
  have "\<forall>a\<in>set (fm_active (s_fm loaded_sys)).
          case s_heap loaded_sys a of None \<Rightarrow> False | Some f \<Rightarrow> f_expr f \<noteq> None"
    by code_simp
  then show ?thesis by (auto split: option.splits)
qed

theorem match_active_spec_witness:
  "reachable es_rt loaded_sys \<and> fm_loaded (s_fm loaded_sys) \<and>
   fm_match_active es_rt loaded_sys ''x.jpg'' IMAGE_FILTER =
    Inr (''x.jpg'' \<noteq> [] \<and>
         (\<exists>a\<in>set (fm_active (s_fm loaded_sys)). \<exists>f e. s_heap loaded_sys a = Some f \<and> f_expr f = Some e \<and>
            f_type f AND IMAGE_FILTER \<noteq> 0 \<and>
            (\<exists>m\<in>set (fst (make_regs es_rt e [])). rt_search es_rt (re_source m) (re_ignore_case m) ''x.jpg'')))"
  using match_active_spec [OF reachable_loaded _ loaded_sys_exprs, of "''x.jpg''" IMAGE_FILTER]
    reachable_loaded loaded_sys_quiet loaded_sys_exprs by simp

theorem enum_all_drains_witness:
  "fm_loaded (s_fm loaded_sys) \<and>
   (\<exists>e. fe_take (length (fm_all (s_fm loaded_sys))) (fm_enum_all loaded_sys) = (e, Inr (fm_all (s_fm loaded_sys))) \<and>
        fe_has_more e = Inr False)"
  using enum_all_drains [of loaded_sys] loaded_sys_quiet by auto

theorem glob_filter_matches_witness:
  "regs_consistent es_rt (fst (set_expression es_rt ''*.zip'' (new_filter ''t''))) \<and>
   f_expr (fst (set_expression es_rt ''*.zip'' (new_filter ''t''))) = Some ''*.zip'' \<and>
   explicit_attempt es_rt (js_trim ''*.zip'') = None \<and> CHR '','' \<notin> set ''*.zip'' \<and> js_trim ''*.zip'' \<noteq> [] \<and>
   CHR ''+'' \<notin> set ''*.zip'' \<and> CHR ''|'' \<notin> set ''*.zip'' \<and>
   filter_match es_rt (fst (set_expression es_rt ''*.zip'' (new_filter ''t''))) ''a.ZIP'' =
     Inr (''a.ZIP'' \<noteq> [] \<and> glob_search (js_trim ''*.zip'') ''a.ZIP'')"
proof -
  have h: "regs_consistent es_rt (fst (set_expression es_rt ''*.zip'' (new_filter ''t''))) \<and>
     f_expr (fst (set_expression es_rt ''*.zip'' (new_filter ''t''))) = Some ''*.zip'' \<and>
     explicit_attempt es_rt (js_trim ''*.zip'') = None \<and> CHR '','' \<notin> set ''*.zip'' \<and> js_trim ''*.zip'' \<noteq> [] \<and>
     CHR ''+'' \<notin> set ''*.zip'' \<and> CHR ''|'' \<notin> set ''*.zip''"
    by code_simp
  then show ?thesis using glob_filter_matches [of "fst (set_expression es_rt ''*.zip'' (new_filter ''t''))" "''*.zip''" "''a.ZIP''"]
    by blast
qed

lemma sample_regs: "snd (make_regs es_rt ''*.zip'' []) = None \<and> fst (make_regs es_rt ''*.zip'' []) = [RegExp (glob_regexp ''*.zip'') True]"
  by code_simp

theorem save_load_roundtrip_witness:
  "f_modified sample_filter \<and> f_label sample_filter \<noteq> [] \<and> f_expr sample_filter = Some ''*.zip'' \<and>
   snd (make_regs es_rt ''*.zip'' []) = None \<and>
   (let p' = fst (fst (filter_save plain_store sample_filter \<lparr>pr_default = [], pr_user = []\<rparr>));
        (g, err) = filter_load es_rt p' None (new_filter (f_name sample_filter))
    in err = None \<and> f_label g = ''Zeta'' \<and> f_expr g = Some ''*.zip'')"
  using save_load_roundtrip [of sample_filter "''*.zip''" es_rt "\<lparr>pr_default = [], pr_user = []\<rparr>" None]
    sample_regs by (simp add: sample_filter_def Let_def split: prod.splits)

theorem set_expression_failure_witness:
  "f_expr sample_filter \<noteq> Some ''c++'' \<and> snd (make_regs es_rt ''c++'' []) = Some SyntaxError \<and>
   set_expression es_rt ''c++'' sample_filter =
     (sample_filter\<lparr>f_expr := Some ''c++'', f_regs := Some (fst (make_regs es_rt ''c++'' []))\<rparr>, Some SyntaxError)"
proof -
  have e: "snd (make_regs es_rt ''c++'' []) = Some SyntaxError" by code_simp
  have "f_expr sample_filter \<noteq> Some ''c++''" by (simp add: sample_filter_def)
  with e show ?thesis using set_expression_failure [of sample_filter "''c++''" es_rt SyntaxError] by simp
qed

theorem filter_save_order_witness:
  "f_modified sample_filter \<and> f_expr sample_filter = Some ''*.zip'' \<and>
   fst (fst (filter_save plain_store sample_filter \<lparr>pr_default = [], pr_user = []\<rparr>)) =
     \<lparr>pr_default = [], pr_user = [(BASE @ ''u1.active'', PBool True), (BASE @ ''u1.test'', PStr ''*.zip''),
                                  (BASE @ ''u1.type'', PInt 1), (BASE @ ''u1.label'', PStr ''Zeta'')]\<rparr>"
  using filter_save_order [of sample_filter "''*.zip''" plain_store "\<lparr>pr_default = [], pr_user = []\<rparr>"]
  by (simp add: sample_filter_def plain_store_def pref_set_def filter_pref_def BASE_def)

theorem filter_save_undefined_expression_witness:
  "f_modified (sample_filter\<lparr>f_expr := None\<rparr>) \<and> f_expr (sample_filter\<lparr>f_expr := None\<rparr>) = None \<and>
   snd (filter_save plain_store (sample_filter\<lparr>f_expr := None\<rparr>) \<lparr>pr_default = [], pr_user = []\<rparr>) = Some TypeError"
  using filter_save_undefined_expression [of "sample_filter\<lparr>f_expr := None\<rparr>" plain_store "\<lparr>pr_default = [], pr_user = []\<rparr>"]
  by (simp add: sample_filter_def)

theorem regs_consistent_preserved_witness:
  "regs_consistent es_rt sample_filter \<and> regs_consistent es_rt (set_label ''New'' sample_filter) \<and>
   regs_consistent es_rt (fst (set_expression es_rt ''*.gz'' sample_filter))"
proof -
  have c: "regs_consistent es_rt sample_filter"
    using sample_regs by (simp add: regs_consistent_def sample_filter_def)
  show ?thesis using regs_consistent_preserved [OF c, where v = "''New''" and x = "''*.gz''" and ops = plain_store
      and s = "\<lparr>pr_default = [], pr_user = []\<rparr>"] c by simp
qed

theorem filter_match_comma_witness:
  "let f = fst (set_expression es_rt ''x,y'' (new_filter ''t''));
       fa = fst (set_expression es_rt ''x'' (new_filter ''t''));
       fb = fst (set_expression es_rt ''y'' (new_filter ''t''))
   in explicit_attempt es_rt (js_trim (''x'' @ CHR '','' # ''y'')) = None \<and> snd (make_regs es_rt ''x'' []) = None \<and>
      regs_consistent es_rt f \<and> f_expr f = Some (''x'' @ CHR '','' # ''y'') \<and>
      regs_consistent es_rt fa \<and> f_expr fa = Some ''x'' \<and> regs_consistent es_rt fb \<and> f_expr fb = Some ''y'' \<and>
      filter_match es_rt fa ''ay'' = Inr False \<and> filter_match es_rt fb ''ay'' = Inr True \<and>
      filter_match es_rt f ''ay'' = Inr (False \<or> True)"
proof -
  have h: "let f = fst (set_expression es_rt ''x,y'' (new_filter ''t''));
       fa = fst (set_expression es_rt ''x'' (new_filter ''t''));
       fb = fst (set_expression es_rt ''y'' (new_filter ''t''))
   in explicit_attempt es_rt (js_trim (''x'' @ CHR '','' # ''y'')) = None \<and> snd (make_regs es_rt ''x'' []) = None \<and>
      regs_consistent es_rt f \<and> f_expr f = Some (''x'' @ CHR '','' # ''y'') \<and>
      regs_consistent es_rt fa \<and> f_expr fa = Some ''x'' \<and> regs_consistent es_rt fb \<and> f_expr fb = Some ''y'' \<and>
      filter_match es_rt fa ''ay'' = Inr False \<and> filter_match es_rt fb ''ay'' = Inr True"
    by code_simp
  then show ?thesis
    using filter_match_comma [of es_rt "''x''" "''y''" "fst (set_expression es_rt ''x,y'' (new_filter ''t''))"
        "fst (set_expression es_rt ''x'' (new_filter ''t''))" "fst (set_expression es_rt ''y'' (new_filter ''t''))"
        "''ay''" False True]
    by (simp add: Let_def)
qed

theorem remove_resets_prefix_branch_witness:
  "\<not> f_def (new_filter (BASE @ ''u1'')) \<and> js_starts_with (BASE @ ''u12.label'') (f_name (new_filter (BASE @ ''u1''))) \<and>
   \<not> pref_has_user (fst (filter_remove plain_store (new_filter (BASE @ ''u1''))
        \<lparr>pr_default = [], pr_user = [(BASE @ ''u12.label'', PStr ''other'')]\<rparr>)) (BASE @ ''u12.label'')"
proof -
  have h: "\<not> f_def (new_filter (BASE @ ''u1'')) \<and> js_starts_with (BASE @ ''u12.label'') (f_name (new_filter (BASE @ ''u1'')))"
    by code_simp
  then show ?thesis
    using remove_resets_prefix_branch [of "new_filter (BASE @ ''u1'')" "BASE @ ''u12.label''" "\<lparr>pr_default = [], pr_user = [(BASE @ ''u12.label'', PStr ''other'')]\<rparr>"]
    by simp
qed

theorem reachable_lists_bounds_witness:
  "reachable es_rt loaded_sys \<and> distinct (fm_all (s_fm loaded_sys)) \<and>
   length (fm_active (s_fm loaded_sys)) \<le> length (fm_all (s_fm loaded_sys))"
  using FilterManager.reachable_lists_bounds [OF reachable_loaded] reachable_loaded by simp

theorem reachable_regs_valid_witness:
  "reachable es_rt loaded_sys \<and> s_heap loaded_sys 0 \<noteq> None \<and> f_regs (the (s_heap loaded_sys 0)) \<noteq> None \<and>
   list_all (re_valid es_rt) (the (f_regs (the (s_heap loaded_sys 0))))"
proof -
  have h: "s_heap loaded_sys 0 \<noteq> None \<and> f_regs (the (s_heap loaded_sys 0)) \<noteq> None" by code_simp
  then show ?thesis
    using FilterManager.reachable_regs_valid [OF reachable_loaded, of 0 "the (s_heap loaded_sys 0)" "the (f_regs (the (s_heap loaded_sys 0)))"]
      reachable_loaded by auto
qed

theorem explicit_filter_matches_witness:
  "let f = fst (set_expression es_rt ''/x{2,3}y/'' (new_filter ''t''));
       r = RxSeq (RxSeq (RxChar CHR ''x'') (RxSeq (RxChar CHR ''x'') (RxAlt (RxSeq (RxChar CHR ''x'') RxEmpty) RxEmpty)))
             (RxSeq (RxChar CHR ''y'') RxEmpty)
   in regs_consistent es_rt f \<and> f_expr f = Some ''/x{2,3}y/'' \<and>
      explicit_regexp (js_trim ''/x{2,3}y/'') = Some (''x{2,3}y'', False) \<and> 2 < length (js_trim ''/x{2,3}y/'') \<and>
      rx_parse ''x{2,3}y'' = POk r \<and>
      filter_match es_rt f ''axxxy'' = Inr (''axxxy'' \<noteq> [] \<and> (\<exists>i j. i \<le> length ''axxxy'' \<and> rx_at False ''axxxy'' r i j))"
proof -
  let ?f = "fst (set_expression es_rt ''/x{2,3}y/'' (new_filter ''t''))"
  let ?r = "RxSeq (RxSeq (RxChar CHR ''x'') (RxSeq (RxChar CHR ''x'') (RxAlt (RxSeq (RxChar CHR ''x'') RxEmpty) RxEmpty)))
             (RxSeq (RxChar CHR ''y'') RxEmpty)"
  have h: "regs_consistent es_rt ?f \<and> f_expr ?f = Some ''/x{2,3}y/'' \<and>
      explicit_regexp (js_trim ''/x{2,3}y/'') = Some (''x{2,3}y'', False) \<and> 2 < length (js_trim ''/x{2,3}y/'') \<and>
      rx_parse ''x{2,3}y'' = POk ?r"
    by code_simp
  then show ?thesis unfolding Let_def
    using explicit_filter_matches [of ?f "''/x{2,3}y/''" "''x{2,3}y''" False ?r "''axxxy''"] by blast
qed

theorem unregistered_observer_witness:
  "\<not> fm_inited (s_fm (sys0 fixture_prefs)) \<and> fm_must_reload (s_fm (fm_init (\<lambda>_. None) False (sys0 fixture_prefs))) \<and>
   s_fm (run es_rt (fm_timer_fire es_rt (fm_init (\<lambda>_. None) False (sys0 fixture_prefs)))
          (map store_event [Inl (fkey ''u1'' ''label'', PStr ''Z'')])) =
     s_fm (fm_timer_fire es_rt (fm_init (\<lambda>_. None) False (sys0 fixture_prefs)))"
  using FilterManager.unregistered_observer [of "sys0 fixture_prefs" "\<lambda>_. None" es_rt "[Inl (fkey ''u1'' ''label'', PStr ''Z'')]"]
  by (simp add: sys0_def)


theorem untested_filter_match_throws_witness:
  "pref_get broken_prefs (BASE @ ''u3'' @ CHR ''.'' # ''label'') = Some (PStr ''untested'') \<and>
   pref_get broken_prefs (BASE @ ''u3'' @ CHR ''.'' # ''test'') = None \<and>
   snd (filter_load es_rt broken_prefs None (new_filter (BASE @ ''u3''))) = None \<and>
   filter_match es_rt (fst (filter_load es_rt broken_prefs None (new_filter (BASE @ ''u3'')))) ''x.png'' = Inl TypeError"
proof -
  have p: "pref_get broken_prefs ((BASE @ ''u3'') @ CHR ''.'' # ''label'') = Some (PStr ''untested'')"
    "pref_get broken_prefs ((BASE @ ''u3'') @ CHR ''.'' # ''test'') = None" by code_simp+
  show ?thesis
    using DtaFilter.untested_filter_match_throws [OF p(1) _ p(2), of "''x.png''" es_rt None] p by simp
qed


theorem stale_active_view_witness:
  "reachable es_rt loaded_sys \<and> 0 \<in> set (fm_active (s_fm loaded_sys)) \<and>
   0 \<in> set (fm_active (s_fm (sys_event es_rt loaded_sys (EvSetActive 0 False)))) \<and>
   \<not> f_active (the (s_heap (sys_event es_rt loaded_sys (EvSetActive 0 False)) 0))"
proof -
  have a: "0 \<in> set (fm_active (s_fm loaded_sys))" by code_simp
  show ?thesis using FilterManager.stale_active_view [OF reachable_loaded a] reachable_loaded a by simp
qed

theorem create_empty_label_dropped_witness:
  "snd (make_regs es_rt ''*.x'' []) = None \<and>
   snd (fm_create es_rt ''e1'' [] ''*.x'' True LINK_FILTER loaded_sys) = Inr ''e1'' \<and>
   ''e1'' \<notin> filter_id ` set (loaded_filters es_rt (fst (fm_create es_rt ''e1'' [] ''*.x'' True LINK_FILTER loaded_sys)))"
proof -
  have m: "snd (make_regs es_rt ''*.x'' []) = None" by code_simp
  show ?thesis using FilterManager.create_empty_label_dropped [OF _ m, of "''e1''" True LINK_FILTER loaded_sys] m by simp
qed

end
